theory Spec2Isabelle
  imports Main
begin

section \<open>Values, exceptions and node instances\<close>

text \<open>
  Python values that travel through the engine (trigger data, node results, variables).
  A dictionary is an association list read with \<open>map_of\<close>; its keys are strings.
\<close>

datatype pyval =
    PNone
  | PBool bool
  | PInt int
  | PStr string
  | PList "pyval list"
  | PDict "(string \<times> pyval) list"

text \<open>
  A raised exception: the names of its class and of its base classes (what
  \<open>isinstance\<close> consults), and \<open>str(e)\<close>.
\<close>

datatype exn = Exn (exn_mro: "string list") (exn_str: string)

definition isinstance :: "exn \<Rightarrow> string list \<Rightarrow> bool" where
  "isinstance e classes = (\<exists>c \<in> set classes. c \<in> set (exn_mro e))"

definition WorkflowError :: "string \<Rightarrow> exn" where
  "WorkflowError m = Exn [''WorkflowError'', ''Exception'', ''BaseException''] m"

definition WorkflowCycleError :: "string \<Rightarrow> exn" where
  "WorkflowCycleError m =
     Exn [''WorkflowCycleError'', ''WorkflowError'', ''Exception'', ''BaseException''] m"

definition KeyError :: "string \<Rightarrow> exn" where
  "KeyError k = Exn [''KeyError'', ''LookupError'', ''Exception'', ''BaseException''] k"

definition IndexError :: "string \<Rightarrow> exn" where
  "IndexError m = Exn [''IndexError'', ''LookupError'', ''Exception'', ''BaseException''] m"

definition RecursionError :: exn where
  "RecursionError =
     Exn [''RecursionError'', ''RuntimeError'', ''Exception'', ''BaseException'']
       ''maximum recursion depth exceeded''"

text \<open>
  What \<open>validate_config()\<close> of a node may hand back: a bool, an object with an
  \<open>is_valid\<close> attribute (and maybe an \<open>error_message\<close>), or anything else.
\<close>

datatype vc_result =
    VBool bool
  | VObject (is_valid: bool) (error_message: "string option")
  | VOther

text \<open>
  A node instance, as far as the engine and the validator use it: the optional
  \<open>validate_config\<close> attribute, \<open>configure\<close> (None: no exception), and
  \<open>execute\<close> on the prepared input. Each may raise.
\<close>

record node_instance =
  validate_config :: "(exn + vc_result) option"
  configure :: "pyval \<Rightarrow> pyval \<Rightarrow> exn option"
  execute :: "(string \<rightharpoonup> pyval) \<Rightarrow> exn + pyval"

text \<open>A node class is its constructor: positional and keyword arguments in, an
  instance or an exception out.\<close>

type_synonym node_class = "pyval list \<Rightarrow> (string \<times> pyval) list \<Rightarrow> exn + node_instance"

section \<open>Workflow definitions (the engine's dictionary form)\<close>

record node_def =
  node_type :: "string option"
  node_name :: "string option"
  description :: "string option"
  config :: "pyval option"
  credentials :: "pyval option"
  required :: "bool option"

text \<open>
  An edge carries both endpoints (the Edge type of the data model;
  \<open>_validate_workflow_def\<close> rejects an edge that lacks one). \<open>source_output\<close> and
  \<open>target_input\<close> are optional and read with defaults.
\<close>

record edge =
  source :: string
  target :: string
  source_output :: "string option"
  target_input :: "string option"

record output_def =
  out_node :: string
  out_path :: "string option"

text \<open>\<open>nodes\<close> and \<open>outputs\<close> are dictionaries in insertion order.\<close>

record workflow_def =
  wf_id :: "string option"
  wf_name :: "string option"
  nodes :: "(string \<times> node_def) list"
  edges :: "edge list"
  outputs :: "(string \<times> output_def) list"

section \<open>Execution context (\<open>core/execution_context.py\<close>)\<close>

text \<open>
  Time stamps are abstract clock readings; \<open>task\<close> is left out (it is the handle of the
  running coroutine).
\<close>

record execution_context =
  workflow_id :: string
  execution_id :: string
  workflow_def :: workflow_def
  trigger_data :: pyval
  status :: string
  error :: "string option"
  start_time :: "nat option"
  end_time :: "nat option"
  duration_seconds :: int
  active_nodes :: "string \<rightharpoonup> node_instance"
  node_results :: "string \<rightharpoonup> pyval"
  variables :: "string \<rightharpoonup> pyval"

definition ExecutionContext ::
  "string \<Rightarrow> string \<Rightarrow> workflow_def \<Rightarrow> pyval option \<Rightarrow> execution_context" where
  "ExecutionContext wid eid wdef trig =
     \<lparr> workflow_id = wid, execution_id = eid, workflow_def = wdef,
       trigger_data = (case trig of None \<Rightarrow> PDict [] | Some t \<Rightarrow> t),
       status = ''created'', error = None, start_time = None, end_time = None,
       duration_seconds = 0, active_nodes = Map.empty, node_results = Map.empty,
       variables = Map.empty \<rparr>"

definition set_variable :: "execution_context \<Rightarrow> string \<Rightarrow> pyval \<Rightarrow> execution_context" where
  "set_variable c name v = c\<lparr>variables := (variables c)(name \<mapsto> v)\<rparr>"

definition get_variable :: "execution_context \<Rightarrow> string \<Rightarrow> pyval \<Rightarrow> pyval" where
  "get_variable c name dflt = (case variables c name of None \<Rightarrow> dflt | Some v \<Rightarrow> v)"

definition startswith :: "string \<Rightarrow> string \<Rightarrow> bool" where
  "startswith s p = (take (length p) s = p)"

text \<open>The dictionary \<open>to_dict\<close> builds, one field per key.\<close>

record context_dict =
  d_workflow_id :: string
  d_execution_id :: string
  d_status :: string
  d_error :: "string option"
  d_start_time :: "nat option"
  d_end_time :: "nat option"
  d_duration_seconds :: int
  d_active_node_count :: nat
  d_result_node_count :: nat
  d_variables :: "string \<rightharpoonup> pyval"

definition to_dict :: "execution_context \<Rightarrow> context_dict" where
  "to_dict c =
     \<lparr> d_workflow_id = workflow_id c, d_execution_id = execution_id c,
       d_status = status c, d_error = error c,
       d_start_time = start_time c, d_end_time = end_time c,
       d_duration_seconds = duration_seconds c,
       d_active_node_count = card (dom (active_nodes c)),
       d_result_node_count = card (dom (node_results c)),
       d_variables = (\<lambda>k. if \<not> startswith k ''_'' then variables c k else None) \<rparr>"

section \<open>Node registry (\<open>core/node_registry.py\<close>)\<close>

record node_registry =
  node_types :: "string \<rightharpoonup> node_class"

definition register_node_type :: "node_registry \<Rightarrow> string \<Rightarrow> node_class \<Rightarrow> node_registry" where
  "register_node_type reg type_name cls = reg\<lparr>node_types := (node_types reg)(type_name \<mapsto> cls)\<rparr>"

text \<open>\<open>create_node\<close>: None for a type that is not registered; otherwise the class is
  called, and what it raises is raised again.\<close>

definition create_node ::
  "node_registry \<Rightarrow> string \<Rightarrow> pyval list \<Rightarrow> (string \<times> pyval) list \<Rightarrow> exn + node_instance option" where
  "create_node reg type_name args kwargs =
     (case node_types reg type_name of
        None \<Rightarrow> Inr None
      | Some cls \<Rightarrow>
          (case cls args kwargs of
             Inl e \<Rightarrow> Inl e
           | Inr inst \<Rightarrow> Inr (Some inst)))"

text \<open>Modelled from the spec: \<open>has_node_type\<close> and \<open>get_node_class\<close> are called by the
  validator and the engine but \<open>NodeRegistry\<close> as given does not define them; the spec's
  \<open>has_type(type_name) -> bool\<close> tells whether a factory is bound to the name, and the
  class handed back is that binding.\<close>

definition has_node_type :: "node_registry \<Rightarrow> string \<Rightarrow> bool" where
  "has_node_type reg type_name = (node_types reg type_name \<noteq> None)"

definition get_node_class :: "node_registry \<Rightarrow> string \<Rightarrow> node_class option" where
  "get_node_class reg type_name = node_types reg type_name"

section \<open>Retry with backoff (\<open>utils/retry_mechanism.py\<close>)\<close>

text \<open>
  The decorator's arguments and the instance's \<open>retry_config\<close>. The delay
  (\<open>min(max_wait, delay * 2 ** (attempt - 1))\<close> times a random jitter) only feeds
  \<open>sleep\<close>; it does not influence what the wrapper returns and is not modelled.
\<close>

record retry_args =
  max_retries :: "int option"
  retry_on :: "string list option"
  retry_if :: "(exn \<Rightarrow> bool) option"

record retry_config =
  cfg_max_retries :: "int option"
  cfg_retry_on_exceptions :: "string list option"

definition resolve_retries :: "retry_args \<Rightarrow> retry_config option \<Rightarrow> int" where
  "resolve_retries a inst =
     (case max_retries a of
        Some r \<Rightarrow> r
      | None \<Rightarrow> (case inst of None \<Rightarrow> 3
                 | Some cfg \<Rightarrow> (case cfg_max_retries cfg of None \<Rightarrow> 3 | Some r \<Rightarrow> r)))"

definition resolve_exceptions :: "retry_args \<Rightarrow> retry_config option \<Rightarrow> string list" where
  "resolve_exceptions a inst =
     (case retry_on a of
        Some cs \<Rightarrow> cs
      | None \<Rightarrow> (case inst of None \<Rightarrow> [''Exception'']
                 | Some cfg \<Rightarrow> (case cfg_retry_on_exceptions cfg of
                                  None \<Rightarrow> [''Exception''] | Some cs \<Rightarrow> cs)))"

text \<open>
  The \<open>while True\<close> loop. \<open>func k\<close> is the outcome of the \<open>k\<close>-th invocation of the wrapped
  function (counted from 0); \<open>calls\<close> counts the invocations made so far. The result
  is what the wrapper returns or raises, with the number of invocations.
\<close>

function retry_loop ::
  "int \<Rightarrow> string list \<Rightarrow> (exn \<Rightarrow> bool) option \<Rightarrow> (nat \<Rightarrow> exn + 'a) \<Rightarrow> nat \<Rightarrow> nat
     \<Rightarrow> (exn + 'a) \<times> nat" where
  "retry_loop retries exceptions rif func attempt calls =
     (case func calls of
        Inr v \<Rightarrow> (Inr v, Suc calls)
      | Inl e \<Rightarrow>
          if \<not> isinstance e exceptions then (Inl e, Suc calls)
          else
            let attempt' = attempt + 1;
                should_retry = (int attempt' < retries);
                should_retry' = (if should_retry \<and> rif \<noteq> None then the rif e else should_retry)
            in if \<not> should_retry' then (Inl e, Suc calls)
               else retry_loop retries exceptions rif func attempt' (Suc calls))"
  by pat_completeness auto
termination
  by (relation "measure (\<lambda>(retries, exceptions, rif, func, attempt, calls). nat (retries - int attempt))")
     (auto split: if_splits)

declare retry_loop.simps [simp del]

definition wrapper ::
  "retry_args \<Rightarrow> retry_config option \<Rightarrow> (nat \<Rightarrow> exn + 'a) \<Rightarrow> (exn + 'a) \<times> nat" where
  "wrapper a inst func =
     retry_loop (resolve_retries a inst) (resolve_exceptions a inst) (retry_if a) func 0 0"

section \<open>Dotted-path extraction (\<open>_prepare_node_input\<close>, \<open>_prepare_workflow_output\<close>)\<close>

text \<open>\<open>s.split(c)\<close> for a one-character separator: never empty, one more piece than
  there are separators.\<close>

fun split :: "string \<Rightarrow> char \<Rightarrow> string list" where
  "split [] c = [[]]"
| "split (x # xs) c =
     (if x = c then [] # split xs c
      else (case split xs c of [] \<Rightarrow> [[x]] | p # ps \<Rightarrow> (x # p) # ps))"

text \<open>\<open>isinstance(value, dict) and part in value\<close>, and \<open>value[part]\<close>.\<close>

fun has_key :: "pyval \<Rightarrow> string \<Rightarrow> bool" where
  "has_key (PDict d) part = (map_of d part \<noteq> None)"
| "has_key _ part = False"

fun getitem :: "pyval \<Rightarrow> string \<Rightarrow> pyval" where
  "getitem (PDict d) part = (case map_of d part of Some v \<Rightarrow> v | None \<Rightarrow> PNone)"
| "getitem _ part = PNone"

text \<open>The loop over the parts, with its \<open>break\<close>; both functions contain the same
  loop.\<close>

fun extract_parts :: "string list \<Rightarrow> pyval \<Rightarrow> pyval" where
  "extract_parts [] v = v"
| "extract_parts (part # parts) v =
     (if has_key v part then extract_parts parts (getitem v part) else PNone)"

definition extract_path :: "string \<Rightarrow> pyval \<Rightarrow> pyval" where
  "extract_path output_path v = extract_parts (split output_path CHR ''.'') v"

section \<open>Execution planner (\<open>WorkflowEngine._build_execution_plan\<close>)\<close>

text \<open>\<open>sep.join(xs)\<close>.\<close>

fun join :: "string \<Rightarrow> string list \<Rightarrow> string" where
  "join sep [] = []"
| "join sep [x] = x"
| "join sep (x # y # ys) = x @ sep @ join sep (y # ys)"

text \<open>
  The dictionary \<open>dependencies\<close> has the node ids as keys, each bound to a set that
  starts empty: it is modelled by the list of keys and a total lookup. The loop over the
  edges skips an edge whose source or target is falsy (the empty string) and raises
  KeyError when the target is not a key.
\<close>

fun add_dependencies ::
  "string list \<Rightarrow> edge list \<Rightarrow> (string \<Rightarrow> string set) \<Rightarrow> exn + (string \<Rightarrow> string set)" where
  "add_dependencies keys [] dependencies = Inr dependencies"
| "add_dependencies keys (e # es) dependencies =
     (if source e \<noteq> [] \<and> target e \<noteq> [] then
        (if target e \<in> set keys
         then add_dependencies keys es
                (dependencies(target e := insert (source e) (dependencies (target e))))
         else Inl (KeyError (target e)))
      else add_dependencies keys es dependencies)"

text \<open>
  The \<open>while remaining_nodes\<close> loop. \<open>remaining_nodes\<close> is a Python set; its iteration
  order is fixed here as the order of the list. One round collects the nodes without
  dependencies into \<open>level\<close>, takes them out of \<open>remaining_nodes\<close>, fails when there
  are none, and discards them from the dependencies of the nodes that remain.
\<close>

function plan_loop ::
  "(string \<Rightarrow> string set) \<Rightarrow> string list \<Rightarrow> string list list \<Rightarrow> exn + string list list" where
  "plan_loop dependencies remaining_nodes execution_plan =
     (if remaining_nodes = [] then Inr execution_plan
      else
        let level = filter (\<lambda>node_id. dependencies node_id = {}) remaining_nodes;
            remaining' = filter (\<lambda>node_id. dependencies node_id \<noteq> {}) remaining_nodes
        in if level = []
           then Inl (WorkflowError
                  (''Cyclic dependency detected among nodes: '' @ join '', '' remaining'))
           else plan_loop
                  (\<lambda>node_id. if node_id \<in> set remaining'
                     then dependencies node_id - set level else dependencies node_id)
                  remaining' (execution_plan @ [level]))"
  by pat_completeness auto
termination
proof (relation "measure (\<lambda>(dependencies, remaining_nodes, execution_plan). length remaining_nodes)")
  show "wf (measure (\<lambda>(dependencies, remaining_nodes, execution_plan). length remaining_nodes))"
    by simp
next
  fix dependencies :: "string \<Rightarrow> string set" and remaining_nodes :: "string list"
    and execution_plan :: "string list list" and level remaining'
  assume "level = filter (\<lambda>node_id. dependencies node_id = {}) remaining_nodes"
    and "remaining' = filter (\<lambda>node_id. dependencies node_id \<noteq> {}) remaining_nodes"
    and "level \<noteq> []"
  moreover have "length (filter (\<lambda>node_id. dependencies node_id = {}) remaining_nodes)
      + length (filter (\<lambda>node_id. dependencies node_id \<noteq> {}) remaining_nodes)
      = length remaining_nodes"
    using sum_length_filter_compl [of "\<lambda>node_id. dependencies node_id = {}" remaining_nodes]
    by simp
  ultimately show "((\<lambda>node_id. if node_id \<in> set remaining'
                     then dependencies node_id - set level else dependencies node_id,
                    remaining', execution_plan @ [level]),
                   dependencies, remaining_nodes, execution_plan)
      \<in> measure (\<lambda>(dependencies, remaining_nodes, execution_plan). length remaining_nodes)"
    by (cases "filter (\<lambda>node_id. dependencies node_id = {}) remaining_nodes") auto
qed

declare plan_loop.simps [simp del]

text \<open>\<open>set(dependencies.keys())\<close> holds each key once.\<close>

definition build_execution_plan :: "workflow_def \<Rightarrow> exn + string list list" where
  "build_execution_plan wd =
     (let keys = remdups (map fst (nodes wd)) in
      case add_dependencies keys (edges wd) (\<lambda>node_id. {}) of
        Inl e \<Rightarrow> Inl e
      | Inr dependencies \<Rightarrow> plan_loop dependencies keys [])"

text \<open>The edge relation of a definition, and the part of it the planner records.\<close>

definition edge_rel :: "workflow_def \<Rightarrow> (string \<times> string) set" where
  "edge_rel wd = (\<lambda>e. (source e, target e)) ` set (edges wd)"

definition dep_rel :: "edge list \<Rightarrow> (string \<times> string) set" where
  "dep_rel es = (\<lambda>e. (source e, target e)) ` {e \<in> set es. source e \<noteq> [] \<and> target e \<noteq> []}"

definition node_id_set :: "workflow_def \<Rightarrow> string set" where
  "node_id_set wd = fst ` set (nodes wd)"

subsection \<open>Notions used to state the planner's properties\<close>

text \<open>What the loop keeps true: the remaining nodes and the planned ones partition the
  keys, and a remaining node depends on its predecessors that are not planned yet.\<close>

definition plan_inv ::
  "(string \<times> string) set \<Rightarrow> string set \<Rightarrow> (string \<Rightarrow> string set) \<Rightarrow> string list \<Rightarrow> string list list \<Rightarrow> bool" where
  "plan_inv E K deps rem plan =
     (distinct rem \<and> distinct (concat plan) \<and> set rem \<inter> set (concat plan) = {}
      \<and> set rem \<union> set (concat plan) = K
      \<and> (\<forall>n \<in> set rem. deps n = {s. (s, n) \<in> E} - set (concat plan)))"

definition ordered_in :: "string list list \<Rightarrow> string \<Rightarrow> string \<Rightarrow> bool" where
  "ordered_in plan s t =
     (\<exists>j < length plan. \<exists>i < j. s \<in> set (plan ! i) \<and> t \<in> set (plan ! j))"

text \<open>The index of the first level that contains a node.\<close>

fun level_index :: "string list list \<Rightarrow> string \<Rightarrow> nat option" where
  "level_index [] n = None"
| "level_index (l # ls) n = (if n \<in> set l then Some 0 else map_option Suc (level_index ls n))"

section \<open>Workflow validator (\<open>core/workflow_components.py\<close>)\<close>

text \<open>
  The validator works on \<open>WorkflowDefinition\<close> objects: nodes keyed by id, and connections
  whose \<open>from\<close> and \<open>to\<close> address a node as \<open>node_id.port\<close>. The fields the validator
  never reads (description, version, metadata) are left out.
\<close>

record connection =
  conn_from :: "string option"
  conn_to :: "string option"

record WorkflowDefinition =
  wdef_name :: string
  def_nodes :: "(string \<times> node_def) list"
  connections :: "connection list"

text \<open>Pieces of the f-strings: a quoted value, and \<open>str\<close> of a number.\<close>

definition quoted :: "string \<Rightarrow> string" where
  "quoted s = [CHR 0x27] @ s @ [CHR 0x27]"

definition digit_char :: "nat \<Rightarrow> char" where
  "digit_char n = char_of (48 + n)"

function str_nat :: "nat \<Rightarrow> string" where
  "str_nat n = (if n < 10 then [digit_char n] else str_nat (n div 10) @ [digit_char (n mod 10)])"
  by pat_completeness auto
termination
  by (relation "measure id") auto

declare str_nat.simps [simp del]

text \<open>
  \<open>_validate_nodes\<close>. The class is instantiated with \<open>(node_id, config)\<close>; whatever the
  constructor or \<open>validate_config\<close> raises is caught by one of the two handlers and
  becomes a message (values of type \<open>exn\<close> are instances of \<open>Exception\<close>, which is what
  \<open>except Exception\<close> catches).
\<close>

definition instantiation_error :: "string \<Rightarrow> string \<Rightarrow> exn \<Rightarrow> string" where
  "instantiation_error node_id type_name e =
     (if isinstance e [''WorkflowValidationError'']
      then ''Node '' @ quoted node_id @ '' config error: '' @ exn_str e
      else ''Error instantiating node '' @ quoted node_id @ '' of type '' @ quoted type_name
             @ '' for validation: '' @ exn_str e)"

definition check_validate_config :: "string \<Rightarrow> string \<Rightarrow> node_instance \<Rightarrow> string list" where
  "check_validate_config node_id type_name node_instance =
     (case validate_config node_instance of
        None \<Rightarrow> []
      | Some (Inl e) \<Rightarrow> [instantiation_error node_id type_name e]
      | Some (Inr (VBool b)) \<Rightarrow>
          (if \<not> b then [''Node '' @ quoted node_id @ '' config validation failed (returned False)'']
           else [])
      | Some (Inr (VObject valid msg)) \<Rightarrow>
          (if \<not> valid
           then [''Node '' @ quoted node_id @ '' config validation failed: ''
                  @ (case msg of None \<Rightarrow> ''Unknown error'' | Some m \<Rightarrow> m)]
           else [])
      | Some (Inr VOther) \<Rightarrow> [])"

definition validate_node :: "node_registry \<Rightarrow> string \<Rightarrow> node_def \<Rightarrow> string list" where
  "validate_node reg node_id nd =
     (case node_type nd of
        None \<Rightarrow> [''Node '' @ quoted node_id @ '' is missing '' @ quoted ''type'' @ '' attribute'']
      | Some type_name \<Rightarrow>
          if \<not> has_node_type reg type_name
          then [''Node '' @ quoted node_id @ '' has unknown type: '' @ quoted type_name]
          else
            (case get_node_class reg type_name of
               None \<Rightarrow>
                 [instantiation_error node_id type_name
                    (Exn [''TypeError'', ''Exception'', ''BaseException'']
                       (quoted ''NoneType'' @ '' object is not callable''))]
             | Some node_class \<Rightarrow>
                 (case node_class
                         [PStr node_id, (case config nd of None \<Rightarrow> PDict [] | Some c \<Rightarrow> c)] [] of
                    Inl e \<Rightarrow> [instantiation_error node_id type_name e]
                  | Inr node_instance \<Rightarrow> check_validate_config node_id type_name node_instance)))"

definition validate_nodes :: "node_registry \<Rightarrow> (string \<times> node_def) list \<Rightarrow> string list" where
  "validate_nodes reg ns = concat (map (\<lambda>(node_id, nd). validate_node reg node_id nd) ns)"

text \<open>
  \<open>_validate_connections\<close>. The node instances it builds first are never used and what
  their construction raises is swallowed (\<open>except Exception: pass\<close>), so only the loop
  over the connections is modelled. \<open>split(".", 1)\<close> cuts at the first dot.
\<close>

definition falsy :: "string option \<Rightarrow> bool" where
  "falsy s = (s = None \<or> s = Some [])"

definition has_dot :: "string \<Rightarrow> bool" where
  "has_dot s = (CHR ''.'' \<in> set s)"

definition before_dot :: "string \<Rightarrow> string" where
  "before_dot s = takeWhile (\<lambda>c. c \<noteq> CHR ''.'') s"

definition after_dot :: "string \<Rightarrow> string" where
  "after_dot s = tl (dropWhile (\<lambda>c. c \<noteq> CHR ''.'') s)"

definition str_opt :: "string option \<Rightarrow> string" where
  "str_opt s = (case s of None \<Rightarrow> ''None'' | Some x \<Rightarrow> x)"

definition validate_connection :: "string list \<Rightarrow> nat \<Rightarrow> connection \<Rightarrow> string list" where
  "validate_connection keys i conn =
     (let conn_label = ''Connection #'' @ str_nat (i + 1) in
      if falsy (conn_from conn) \<or> falsy (conn_to conn)
      then [conn_label @ '' missing '' @ quoted ''from'' @ '' or '' @ quoted ''to'' @ '' attributes.'']
      else
        let source_spec = str_opt (conn_from conn);
            target_spec = str_opt (conn_to conn);
            source_node_id = (if has_dot source_spec then before_dot source_spec else source_spec);
            target_node_id = (if has_dot target_spec then Some (before_dot target_spec) else None);
            target_input_name = (if has_dot target_spec then Some (after_dot target_spec) else None)
        in (if source_node_id \<notin> set keys
            then [conn_label @ '' references non-existent source node: '' @ quoted source_node_id @ ''.'']
            else [])
         @ (if falsy target_node_id \<or> str_opt target_node_id \<notin> set keys
            then [conn_label @ '' references non-existent target node: ''
                    @ quoted (str_opt target_node_id) @ ''.'']
            else [])
         @ (if falsy target_input_name
            then [conn_label @ '' target '' @ quoted target_spec
                    @ '' must specify input name with format '' @ quoted ''node_id.input_name'' @ ''.'']
            else []))"

definition validate_connections :: "(string \<times> node_def) list \<Rightarrow> connection list \<Rightarrow> string list" where
  "validate_connections ns conns =
     concat (map (\<lambda>(i, conn). validate_connection (map fst ns) i conn)
                 (zip [0 ..< length conns] conns))"

subsection \<open>Cycle check\<close>

text \<open>
  \<open>graph\<close> maps every node id to the list of its targets; it is modelled, like
  \<open>dependencies\<close>, by a total lookup that gives \<open>[]\<close> outside the keys, which is also
  what \<open>graph.get(u, [])\<close> gives. A connection is recorded when both specs are truthy, the
  source is a key and the target spec has a dot with a non-empty node id before it.
\<close>

fun build_graph :: "string list \<Rightarrow> connection list \<Rightarrow> (string \<Rightarrow> string list) \<Rightarrow> (string \<Rightarrow> string list)" where
  "build_graph keys [] graph = graph"
| "build_graph keys (conn # conns) graph =
     (if falsy (conn_from conn) \<or> falsy (conn_to conn) then build_graph keys conns graph
      else
        let source_spec = str_opt (conn_from conn);
            target_spec = str_opt (conn_to conn);
            source_node_id = (if has_dot source_spec then before_dot source_spec else source_spec);
            target_node_id = (if has_dot target_spec then Some (before_dot target_spec) else None)
        in if source_node_id \<in> set keys \<and> \<not> falsy target_node_id
           then build_graph keys conns
                  (graph(source_node_id := graph source_node_id @ [str_opt target_node_id]))
           else build_graph keys conns graph)"

record dfs_state =
  visited :: "string set"
  recursion_stack :: "string set"
  current_path :: "string list"

text \<open>The error raised on a back edge to \<open>v\<close>; \<open>current_path.index(v)\<close> raises ValueError
  when \<open>v\<close> is not on the path, and the handler raises the fallback message.\<close>

definition cycle_error :: "string \<Rightarrow> string list \<Rightarrow> exn" where
  "cycle_error v path =
     (if v \<in> set path
      then WorkflowCycleError
             (''Workflow contains a cycle: '' @ join '' -> '' (dropWhile (\<lambda>x. x \<noteq> v) path @ [v]))
      else WorkflowCycleError
             (''Workflow contains a cycle involving '' @ v @ '' (path reconstruction error)''))"

text \<open>
  \<open>_dfs_cycle_check_recursive\<close>. The function returns False or raises, so the
  \<open>return True\<close> after the recursive call is never taken and the boolean is dropped.
  The first argument bounds the depth of the recursion; None stands for exceeding it.
  \<open>dfs_loop\<close> is the \<open>for v in graph.get(u, [])\<close> loop, given the recursive call.
\<close>

fun dfs_loop ::
  "(string \<Rightarrow> dfs_state \<Rightarrow> (exn + dfs_state) option) \<Rightarrow> string list \<Rightarrow> dfs_state
     \<Rightarrow> (exn + dfs_state) option" where
  "dfs_loop rec [] s = Some (Inr s)"
| "dfs_loop rec (v # vs) s =
     (if v \<notin> visited s then
        (case rec v s of
           None \<Rightarrow> None
         | Some (Inl e) \<Rightarrow> Some (Inl e)
         | Some (Inr s') \<Rightarrow> dfs_loop rec vs s')
      else if v \<in> recursion_stack s then Some (Inl (cycle_error v (current_path s)))
      else dfs_loop rec vs s)"

primrec dfs_cycle_check_recursive ::
  "nat \<Rightarrow> (string \<Rightarrow> string list) \<Rightarrow> string \<Rightarrow> dfs_state \<Rightarrow> (exn + dfs_state) option" where
  "dfs_cycle_check_recursive 0 graph u s = None"
| "dfs_cycle_check_recursive (Suc depth) graph u s =
     (case dfs_loop (dfs_cycle_check_recursive depth graph) (graph u)
             (s\<lparr>visited := insert u (visited s),
                recursion_stack := insert u (recursion_stack s),
                current_path := current_path s @ [u]\<rparr>) of
        None \<Rightarrow> None
      | Some (Inl e) \<Rightarrow> Some (Inl e)
      | Some (Inr s') \<Rightarrow>
          if current_path s' = [] then Some (Inl (IndexError ''pop from empty list''))
          else if u \<notin> recursion_stack s' then Some (Inl (KeyError u))
          else Some (Inr (s'\<lparr>current_path := butlast (current_path s'),
                               recursion_stack := recursion_stack s' - {u}\<rparr>)))"

text \<open>The loop \<open>for node_id in nodes\<close>; every top-level call gets a fresh path.\<close>

fun check_nodes ::
  "nat \<Rightarrow> (string \<Rightarrow> string list) \<Rightarrow> string list \<Rightarrow> dfs_state \<Rightarrow> (exn + dfs_state) option" where
  "check_nodes depth graph [] s = Some (Inr s)"
| "check_nodes depth graph (node_id # rest) s =
     (if node_id \<notin> visited s then
        (case dfs_cycle_check_recursive depth graph node_id (s\<lparr>current_path := []\<rparr>) of
           None \<Rightarrow> None
         | Some (Inl e) \<Rightarrow> Some (Inl e)
         | Some (Inr s') \<Rightarrow> check_nodes depth graph rest s')
      else check_nodes depth graph rest s)"

text \<open>
  \<open>_check_for_cycles\<close>: returns normally or raises. The recursion is as deep as the
  longest path of unvisited nodes, at most the number of nodes that occur; the depth
  allowed here is above that (\<open>check_for_cycles_depth\<close> below shows it is never
  exceeded), so the interpreter's own recursion limit is not part of the model.
\<close>

definition check_for_cycles :: "(string \<times> node_def) list \<Rightarrow> connection list \<Rightarrow> exn + unit" where
  "check_for_cycles ns conns =
     (let keys = map fst ns;
          graph = build_graph keys conns (\<lambda>node_id. [])
      in case check_nodes (Suc (length keys + length conns)) graph keys
                \<lparr>visited = {}, recursion_stack = {}, current_path = []\<rparr> of
           None \<Rightarrow> Inl RecursionError
         | Some (Inl e) \<Rightarrow> Inl e
         | Some (Inr s) \<Rightarrow> Inr ())"

definition validate_workflow :: "node_registry \<Rightarrow> WorkflowDefinition \<Rightarrow> exn + string list" where
  "validate_workflow reg workflow =
     (if def_nodes workflow = [] then Inr [''Workflow must have at least one node'']
      else
        let node_errors = validate_nodes reg (def_nodes workflow) in
        if node_errors \<noteq> [] then Inr node_errors
        else
          let connection_errors = validate_connections (def_nodes workflow) (connections workflow)
          in case check_for_cycles (def_nodes workflow) (connections workflow) of
               Inl e \<Rightarrow>
                 if isinstance e [''WorkflowCycleError'']
                 then Inr (node_errors @ connection_errors @ [exn_str e])
                 else Inl e
             | Inr u \<Rightarrow> Inr (node_errors @ connection_errors))"

text \<open>The edges of the graph, and what it means for a list of nodes to walk along them.\<close>

definition graph_rel :: "(string \<Rightarrow> string list) \<Rightarrow> (string \<times> string) set" where
  "graph_rel graph = {(u, v). v \<in> set (graph u)}"

fun is_walk :: "(string \<Rightarrow> string list) \<Rightarrow> string list \<Rightarrow> bool" where
  "is_walk graph [] = True"
| "is_walk graph [x] = True"
| "is_walk graph (x # y # ys) = (y \<in> set (graph x) \<and> is_walk graph (y # ys))"

definition is_cycle :: "(string \<Rightarrow> string list) \<Rightarrow> string list \<Rightarrow> bool" where
  "is_cycle graph p = (2 \<le> length p \<and> hd p = last p \<and> is_walk graph p)"

subsection \<open>Notions used to state the properties of the cycle check\<close>

text \<open>
  What the search keeps true. The nodes on \<open>recursion_stack\<close> are those of
  \<open>current_path\<close>, which walks along edges without repetition; a visited node that is no
  longer on the stack is finished: its targets are finished as well, and it lies on no
  cycle.
\<close>

definition dfs_inv :: "(string \<Rightarrow> string list) \<Rightarrow> string set \<Rightarrow> dfs_state \<Rightarrow> bool" where
  "dfs_inv g V s =
     (recursion_stack s = set (current_path s) \<and> distinct (current_path s)
      \<and> is_walk g (current_path s)
      \<and> recursion_stack s \<subseteq> visited s \<and> visited s \<subseteq> V
      \<and> (\<forall>b \<in> visited s - recursion_stack s. set (g b) \<subseteq> visited s - recursion_stack s)
      \<and> (\<forall>b \<in> visited s - recursion_stack s. (b, b) \<notin> (graph_rel g)\<^sup>+))"

text \<open>The error the check raises: a WorkflowCycleError that renders a cycle of the graph.\<close>

definition reports_cycle :: "(string \<Rightarrow> string list) \<Rightarrow> exn \<Rightarrow> bool" where
  "reports_cycle g e =
     (\<exists>p. is_cycle g p \<and> e = WorkflowCycleError (''Workflow contains a cycle: '' @ join '' -> '' p))"

definition dfs_post ::
  "(string \<Rightarrow> string list) \<Rightarrow> string set \<Rightarrow> dfs_state \<Rightarrow> string \<Rightarrow> exn + dfs_state \<Rightarrow> bool" where
  "dfs_post g V s u r =
     (case r of
        Inl e \<Rightarrow> reports_cycle g e
      | Inr s' \<Rightarrow> dfs_inv g V s' \<and> insert u (visited s) \<subseteq> visited s'
                 \<and> recursion_stack s' = recursion_stack s \<and> current_path s' = current_path s)"

text \<open>What the loop over the targets of a node achieves: the same, and the targets it
  went through are finished.\<close>

definition loop_post ::
  "(string \<Rightarrow> string list) \<Rightarrow> string set \<Rightarrow> dfs_state \<Rightarrow> string list \<Rightarrow> exn + dfs_state \<Rightarrow> bool" where
  "loop_post g V s1 vs r =
     (case r of
        Inl e \<Rightarrow> reports_cycle g e
      | Inr s2 \<Rightarrow> dfs_inv g V s2 \<and> visited s1 \<subseteq> visited s2
                 \<and> recursion_stack s2 = recursion_stack s1 \<and> current_path s2 = current_path s1
                 \<and> set vs \<subseteq> visited s2 - recursion_stack s2)"

definition top_post ::
  "(string \<Rightarrow> string list) \<Rightarrow> string set \<Rightarrow> dfs_state \<Rightarrow> string list \<Rightarrow> exn + dfs_state \<Rightarrow> bool" where
  "top_post g V s ns r =
     (case r of
        Inl e \<Rightarrow> reports_cycle g e
      | Inr s' \<Rightarrow> dfs_inv g V s' \<and> current_path s' = [] \<and> visited s \<union> set ns \<subseteq> visited s')"

text \<open>The edge a connection contributes to the graph, if any.\<close>

definition connection_edge :: "string list \<Rightarrow> connection \<Rightarrow> (string \<times> string) option" where
  "connection_edge keys conn =
     (if falsy (conn_from conn) \<or> falsy (conn_to conn) then None
      else
        let source_spec = str_opt (conn_from conn);
            target_spec = str_opt (conn_to conn);
            source_node_id = (if has_dot source_spec then before_dot source_spec else source_spec)
        in if source_node_id \<in> set keys \<and> has_dot target_spec \<and> before_dot target_spec \<noteq> []
           then Some (source_node_id, before_dot target_spec) else None)"

definition conn_rel :: "string list \<Rightarrow> connection list \<Rightarrow> (string \<times> string) set" where
  "conn_rel keys conns = {e. \<exists>c \<in> set conns. connection_edge keys c = Some e}"

section \<open>Workflow engine (\<open>core/workflow_engine.py\<close>)\<close>

datatype WorkflowStatus = REGISTERED | RUNNING | COMPLETED | FAILED | STOPPED

fun status_value :: "WorkflowStatus \<Rightarrow> string" where
  "status_value REGISTERED = ''registered''"
| "status_value RUNNING = ''running''"
| "status_value COMPLETED = ''completed''"
| "status_value FAILED = ''failed''"
| "status_value STOPPED = ''stopped''"

text \<open>
  What \<open>log_execution_event\<close> receives: the event type, the node id (if any) and the
  \<open>error\<close> detail (if any). The events are collected in the order the model emits them.
\<close>

datatype event = Event (event_type: string) (event_node: "string option") (event_error: "string option")

text \<open>
  The engine: its registry, its three tables, and the execution semaphore. The semaphore
  is its counter of free permits; \<open>tasks\<close> lists the executions for which
  \<open>create_task\<close> has scheduled \<open>_execute_workflow_internal\<close> on the event loop.
\<close>

record engine =
  node_registry :: node_registry
  workflows :: "string \<rightharpoonup> workflow_def"
  workflow_status :: "string \<rightharpoonup> WorkflowStatus"
  active_executions :: "string \<rightharpoonup> execution_context"
  max_concurrent_workflows :: nat
  execution_semaphore :: nat
  tasks :: "string list"

definition WorkflowEngine :: "nat option \<Rightarrow> node_registry \<Rightarrow> engine" where
  "WorkflowEngine configured reg =
     (let m = (case configured of None \<Rightarrow> 10 | Some n \<Rightarrow> n) in
      \<lparr> node_registry = reg, workflows = Map.empty, workflow_status = Map.empty,
        active_executions = Map.empty, max_concurrent_workflows = m,
        execution_semaphore = m, tasks = [] \<rparr>)"

subsection \<open>Registration\<close>

text \<open>\<open>sub in s\<close> for strings.\<close>

definition contains :: "string \<Rightarrow> string \<Rightarrow> bool" where
  "contains s sub = (\<exists>i \<in> set [0 ..< Suc (length s)]. take (length sub) (drop i s) = sub)"

fun validate_node_defs :: "node_registry \<Rightarrow> (string \<times> node_def) list \<Rightarrow> exn option" where
  "validate_node_defs reg [] = None"
| "validate_node_defs reg ((node_id, nd) # rest) =
     (if falsy (node_type nd)
      then Some (WorkflowError (''Node '' @ node_id @ '' is missing type definition''))
      else if \<not> has_node_type reg (str_opt (node_type nd))
      then Some (WorkflowError (''Node type '' @ str_opt (node_type nd) @ '' for node '' @ node_id
                   @ '' is not registered''))
      else validate_node_defs reg rest)"

fun validate_edges :: "string list \<Rightarrow> edge list \<Rightarrow> exn option" where
  "validate_edges keys [] = None"
| "validate_edges keys (e # es) =
     (if source e = [] \<or> target e = []
      then Some (WorkflowError ''Edge definition is missing source or target'')
      else if source e \<notin> set keys
      then Some (WorkflowError (''Edge source node '' @ source e @ '' not found in workflow''))
      else if target e \<notin> set keys
      then Some (WorkflowError (''Edge target node '' @ target e @ '' not found in workflow''))
      else validate_edges keys es)"

definition validate_workflow_def :: "node_registry \<Rightarrow> workflow_def \<Rightarrow> exn option" where
  "validate_workflow_def reg wd =
     (if nodes wd = [] then Some (WorkflowError ''Workflow must define at least one node'')
      else case validate_node_defs reg (nodes wd) of
        Some e \<Rightarrow> Some e
      | None \<Rightarrow>
         (case validate_edges (map fst (nodes wd)) (edges wd) of
            Some e \<Rightarrow> Some e
          | None \<Rightarrow>
             (case build_execution_plan wd of
                Inl e \<Rightarrow>
                  if isinstance e [''WorkflowError''] \<and> contains (exn_str e) ''Cyclic dependency''
                  then Some (WorkflowError (''Workflow definition contains a cycle: '' @ exn_str e))
                  else Some e
              | Inr plan \<Rightarrow> None)))"

text \<open>\<open>register_workflow\<close>; \<open>fresh\<close> is the identifier \<open>uuid4\<close> hands out.\<close>

definition register_workflow :: "engine \<Rightarrow> workflow_def \<Rightarrow> string \<Rightarrow> exn + (engine \<times> string \<times> workflow_def)" where
  "register_workflow eng wd fresh =
     (case validate_workflow_def (node_registry eng) wd of
        Some e \<Rightarrow> Inl (WorkflowError (''Failed to register workflow: '' @ exn_str e))
      | None \<Rightarrow>
          let wid = (case wf_id wd of None \<Rightarrow> fresh | Some i \<Rightarrow> i);
              wd' = wd\<lparr>wf_id := Some wid\<rparr>
          in Inr (eng\<lparr>workflows := (workflows eng)(wid \<mapsto> wd'),
                      workflow_status := (workflow_status eng)(wid \<mapsto> REGISTERED)\<rparr>, wid, wd'))"

subsection \<open>Starting an execution\<close>

text \<open>
  \<open>execute_workflow\<close>. The workflow is registered when its id is not known, the context
  is created and stored, the status becomes RUNNING. Then, inside
  \<open>async with self.execution_semaphore\<close>, the task is created: the permit is taken,
  \<open>create_task\<close> schedules the run (it does not run it), and the permit is given back on
  leaving the block. None stands for a caller that has to wait for a permit.
\<close>

definition execute_workflow ::
  "engine \<Rightarrow> workflow_def \<Rightarrow> pyval option \<Rightarrow> string \<Rightarrow> string \<Rightarrow> (exn + (engine \<times> string)) option" where
  "execute_workflow eng wd trig fresh_wid fresh_eid =
     (case (case wf_id wd of
              Some i \<Rightarrow> if i \<in> dom (workflows eng) then Inr (eng, i, wd)
                        else register_workflow eng wd fresh_wid
            | None \<Rightarrow> register_workflow eng wd fresh_wid) of
        Inl e \<Rightarrow> Some (Inl e)
      | Inr (eng1, wid, wd1) \<Rightarrow>
          let context = ExecutionContext wid fresh_eid wd1 trig;
              eng2 = eng1\<lparr>active_executions := (active_executions eng1)(fresh_eid \<mapsto> context),
                          workflow_status := (workflow_status eng1)(wid \<mapsto> RUNNING)\<rparr>
          in if execution_semaphore eng2 = 0 then None
             else
               let acquired = eng2\<lparr>execution_semaphore := execution_semaphore eng2 - 1\<rparr>;
                   created = acquired\<lparr>tasks := tasks acquired @ [fresh_eid]\<rparr>;
                   released = created\<lparr>execution_semaphore := execution_semaphore created + 1\<rparr>
               in Some (Inr (released, fresh_eid)))"

subsection \<open>Status queries\<close>

definition get_workflow_status :: "engine \<Rightarrow> string \<Rightarrow> string option" where
  "get_workflow_status eng wid =
     (case workflow_status eng wid of None \<Rightarrow> None | Some st \<Rightarrow> Some (status_value st))"

text \<open>The dictionary \<open>get_execution_status\<close> returns; of \<open>nodes\<close> only the keys are kept.\<close>

record execution_status =
  st_execution_id :: string
  st_workflow_id :: string
  st_workflow_name :: string
  st_status :: string
  st_start_time :: "nat option"
  st_end_time :: "nat option"
  st_duration_seconds :: int
  st_nodes :: "string set"
  st_error :: "string option"

definition get_execution_status :: "engine \<Rightarrow> string \<Rightarrow> execution_status option" where
  "get_execution_status eng eid =
     (case active_executions eng eid of
        None \<Rightarrow> None
      | Some context \<Rightarrow>
          Some \<lparr> st_execution_id = eid, st_workflow_id = workflow_id context,
                 st_workflow_name = (case wf_name (workflow_def context) of
                                       None \<Rightarrow> ''Unnamed'' | Some n \<Rightarrow> n),
                 st_status = status context, st_start_time = start_time context,
                 st_end_time = end_time context,
                 st_duration_seconds = duration_seconds context,
                 st_nodes = dom (active_nodes context), st_error = error context \<rparr>)"

subsection \<open>Preparing node input and workflow output\<close>

fun add_upstream :: "string \<Rightarrow> (string \<rightharpoonup> pyval) \<Rightarrow> edge list \<Rightarrow> (string \<rightharpoonup> pyval) \<Rightarrow> (string \<rightharpoonup> pyval)" where
  "add_upstream node_id results [] input_data = input_data"
| "add_upstream node_id results (e # es) input_data =
     (if target e = node_id then
        (case results (source e) of
           None \<Rightarrow> add_upstream node_id results es input_data
         | Some source_result \<Rightarrow>
             let output_path = (case source_output e of None \<Rightarrow> ''output'' | Some p \<Rightarrow> p) in
             if output_path = ''output''
             then add_upstream node_id results es (input_data(source e \<mapsto> source_result))
             else add_upstream node_id results es
                    (input_data((case target_input e of None \<Rightarrow> source e | Some i \<Rightarrow> i)
                                  \<mapsto> extract_path output_path source_result)))
      else add_upstream node_id results es input_data)"

definition prepare_node_input :: "string \<Rightarrow> execution_context \<Rightarrow> (string \<rightharpoonup> pyval)" where
  "prepare_node_input node_id context =
     add_upstream node_id (node_results context) (edges (workflow_def context))
       [''trigger'' \<mapsto> trigger_data context]"

record metadata =
  m_workflow_id :: string
  m_execution_id :: string
  m_start_time :: "nat option"
  m_end_time :: "nat option"
  m_duration_seconds :: int
  m_status :: string

datatype output_entry = Value pyval | Metadata metadata

datatype workflow_output =
    AllResults "string \<rightharpoonup> pyval" metadata
  | DeclaredOutputs "string \<rightharpoonup> output_entry"

definition context_metadata :: "execution_context \<Rightarrow> metadata" where
  "context_metadata context =
     \<lparr> m_workflow_id = workflow_id context, m_execution_id = execution_id context,
       m_start_time = start_time context, m_end_time = end_time context,
       m_duration_seconds = duration_seconds context, m_status = status context \<rparr>"

fun add_outputs :: "(string \<rightharpoonup> pyval) \<Rightarrow> (string \<times> output_def) list \<Rightarrow> (string \<rightharpoonup> output_entry) \<Rightarrow> (string \<rightharpoonup> output_entry)" where
  "add_outputs results [] result = result"
| "add_outputs results ((output_name, od) # rest) result =
     (case results (out_node od) of
        None \<Rightarrow> add_outputs results rest result
      | Some node_result \<Rightarrow>
          let output_path = (case out_path od of None \<Rightarrow> ''output'' | Some p \<Rightarrow> p) in
          add_outputs results rest
            (result(output_name \<mapsto> Value (if output_path = ''output'' then node_result
                                             else extract_path output_path node_result))))"

definition prepare_workflow_output :: "execution_context \<Rightarrow> workflow_output" where
  "prepare_workflow_output context =
     (if outputs (workflow_def context) = []
      then AllResults (node_results context) (context_metadata context)
      else DeclaredOutputs
             ((add_outputs (node_results context) (outputs (workflow_def context)) Map.empty)
                (''__metadata__'' \<mapsto> Metadata (context_metadata context))))"

subsection \<open>Required nodes\<close>

definition flag_required :: "workflow_def \<Rightarrow> string \<Rightarrow> bool" where
  "flag_required wd node_id =
     (case map_of (nodes wd) node_id of
        None \<Rightarrow> True
      | Some nd \<Rightarrow> (case required nd of None \<Rightarrow> True | Some b \<Rightarrow> b))"

definition output_references :: "workflow_def \<Rightarrow> string \<Rightarrow> bool" where
  "output_references wd node_id = (\<exists>od \<in> set (map snd (outputs wd)). out_node od = node_id)"

text \<open>
  \<open>_is_node_required\<close> calls itself on the target of every edge that leaves the node,
  until one call returns True. \<open>required_loop\<close> is that loop, given the recursive call.
  The first argument of \<open>is_node_required_depth\<close> bounds the depth of the recursion. On
  a path of edges that repeats no node the depth stays within the number of edges plus
  one; beyond that a node repeats, the same calls repeat forever, and Python ends the
  recursion with RecursionError: this is the result None.
\<close>

fun required_loop :: "(string \<Rightarrow> bool option) \<Rightarrow> string \<Rightarrow> edge list \<Rightarrow> bool option" where
  "required_loop rec node_id [] = Some False"
| "required_loop rec node_id (e # es) =
     (if source e = node_id then
        (case rec (target e) of
           None \<Rightarrow> None
         | Some True \<Rightarrow> Some True
         | Some False \<Rightarrow> required_loop rec node_id es)
      else required_loop rec node_id es)"

primrec is_node_required_depth :: "nat \<Rightarrow> workflow_def \<Rightarrow> string \<Rightarrow> bool option" where
  "is_node_required_depth 0 wd node_id = None"
| "is_node_required_depth (Suc depth) wd node_id =
     (if flag_required wd node_id then Some True
      else if output_references wd node_id then Some True
      else required_loop (is_node_required_depth depth wd) node_id (edges wd))"

definition is_node_required :: "workflow_def \<Rightarrow> string \<Rightarrow> bool option" where
  "is_node_required wd node_id = is_node_required_depth (Suc (length (edges wd))) wd node_id"

subsection \<open>Running the levels\<close>

text \<open>
  \<open>_execute_node\<close>: the events it logs and what it returns or raises. The nodes of a
  level run concurrently under \<open>gather\<close>; the model lists their events node after node,
  and nothing below depends on that order.
\<close>

definition execute_node :: "string \<Rightarrow> node_instance \<Rightarrow> (string \<rightharpoonup> pyval) \<Rightarrow> event list \<times> (exn + pyval)" where
  "execute_node node_id node input_data =
     (case execute node input_data of
        Inr result \<Rightarrow>
          ([Event ''node_start'' (Some node_id) None, Event ''node_complete'' (Some node_id) None],
           Inr result)
      | Inl e \<Rightarrow>
          ([Event ''node_start'' (Some node_id) None,
            Event ''node_error'' (Some node_id) (Some (exn_str e))],
           Inl e))"

text \<open>The tasks of a level: one for every node id found in \<open>active_nodes\<close>.\<close>

fun level_tasks :: "execution_context \<Rightarrow> string list \<Rightarrow> (event list \<times> (exn + pyval)) list" where
  "level_tasks context [] = []"
| "level_tasks context (node_id # rest) =
     (case active_nodes context node_id of
        None \<Rightarrow> level_tasks context rest
      | Some node \<Rightarrow>
          execute_node node_id node (prepare_node_input node_id context) # level_tasks context rest)"

definition failed_entry :: "exn \<Rightarrow> pyval" where
  "failed_entry e = PDict [(''error'', PStr (exn_str e)), (''status'', PStr ''failed'')]"

text \<open>
  The loop over the gathered results; result \<open>i\<close> is attributed to \<open>node_ids[i]\<close>.
  \<open>node_results\<close> is updated in place, so the entries stored before a raise stay.
\<close>

fun process_results ::
  "workflow_def \<Rightarrow> (string \<times> (exn + pyval)) list \<Rightarrow> (string \<rightharpoonup> pyval)
     \<Rightarrow> (string \<rightharpoonup> pyval) \<times> exn option" where
  "process_results wd [] results = (results, None)"
| "process_results wd ((node_id, Inr result) # rest) results =
     process_results wd rest (results(node_id \<mapsto> result))"
| "process_results wd ((node_id, Inl e) # rest) results =
     (case is_node_required wd node_id of
        None \<Rightarrow> (results, Some RecursionError)
      | Some True \<Rightarrow>
          (results, Some (WorkflowError (''Required node '' @ node_id @ '' failed: '' @ exn_str e)))
      | Some False \<Rightarrow> process_results wd rest (results(node_id \<mapsto> failed_entry e)))"

fun run_levels ::
  "string list list \<Rightarrow> execution_context \<Rightarrow> execution_context \<times> event list \<times> exn option" where
  "run_levels [] context = (context, [], None)"
| "run_levels (node_ids # rest) context =
     (let done = level_tasks context node_ids;
          (results, raised) =
             process_results (workflow_def context) (zip node_ids (map snd done))
               (node_results context);
          context' = context\<lparr>node_results := results\<rparr>
      in case raised of
           Some e \<Rightarrow> (context', concat (map fst done), Some e)
         | None \<Rightarrow>
             (case run_levels rest context' of
                (context'', events, r) \<Rightarrow> (context'', concat (map fst done) @ events, r)))"

definition execute_workflow_nodes ::
  "execution_context \<Rightarrow> execution_context \<times> event list \<times> (exn + workflow_output)" where
  "execute_workflow_nodes context =
     (case build_execution_plan (workflow_def context) of
        Inl e \<Rightarrow> (context, [], Inl e)
      | Inr execution_plan \<Rightarrow>
          (case run_levels execution_plan (context\<lparr>node_results := Map.empty\<rparr>) of
             (context', events, Some e) \<Rightarrow> (context', events, Inl e)
           | (context', events, None) \<Rightarrow> (context', events, Inr (prepare_workflow_output context'))))"

subsection \<open>One run\<close>

fun initialize_workflow_nodes ::
  "node_registry \<Rightarrow> (string \<times> node_def) list \<Rightarrow> execution_context \<Rightarrow> execution_context \<times> exn option" where
  "initialize_workflow_nodes reg [] context = (context, None)"
| "initialize_workflow_nodes reg ((node_id, nd) # rest) context =
     (if falsy (node_type nd)
      then (context, Some (WorkflowError (''Node '' @ node_id @ '' is missing type definition'')))
      else
        (case create_node reg (str_opt (node_type nd)) []
                [(''node_id'', PStr node_id),
                 (''name'', PStr (case node_name nd of None \<Rightarrow> node_id | Some n \<Rightarrow> n)),
                 (''description'', PStr (case description nd of None \<Rightarrow> [] | Some d \<Rightarrow> d))] of
           Inl e \<Rightarrow> (context, Some e)
         | Inr None \<Rightarrow>
             (context, Some (WorkflowError (''Failed to create node of type '' @ str_opt (node_type nd))))
         | Inr (Some node_instance) \<Rightarrow>
             (case configure node_instance
                     (case config nd of None \<Rightarrow> PDict [] | Some c \<Rightarrow> c)
                     (case credentials nd of None \<Rightarrow> PDict [] | Some c \<Rightarrow> c) of
                Some e \<Rightarrow>
                  (context, Some (WorkflowError (''Failed to configure node '' @ node_id @ '': ''
                                                  @ exn_str e)))
              | None \<Rightarrow>
                  initialize_workflow_nodes reg rest
                    (context\<lparr>active_nodes := (active_nodes context)(node_id \<mapsto> node_instance)\<rparr>))))"

text \<open>\<open>handle_workflow_error\<close> wraps what is not a WorkflowError and raises; the retry and
  fallback branches before the raise do nothing yet in the source.\<close>

definition handle_workflow_error :: "exn \<Rightarrow> exn" where
  "handle_workflow_error e =
     (if isinstance e [''WorkflowError''] then e else WorkflowError (exn_str e))"

text \<open>
  \<open>_execute_workflow_internal\<close>, with the readings of the clock at its start and at its
  end. The handler for cancellation is not modelled. In the handler for exceptions
  \<open>handle_workflow_error\<close> raises, so the \<open>raise\<close> after it is never reached; the
  \<open>finally\<close> block removes the execution from \<open>active_executions\<close> on every path.
\<close>

definition execute_workflow_internal ::
  "engine \<Rightarrow> execution_context \<Rightarrow> nat \<Rightarrow> nat
     \<Rightarrow> engine \<times> execution_context \<times> event list \<times> (exn + workflow_output)" where
  "execute_workflow_internal eng context t_start t_end =
     (let c1 = context\<lparr>start_time := Some t_start, status := ''running''\<rparr>;
          (c2, events, outcome) =
             (case initialize_workflow_nodes (node_registry eng) (nodes (workflow_def c1)) c1 of
                (c, Some e) \<Rightarrow> (c, [], Inl e)
              | (c, None) \<Rightarrow> execute_workflow_nodes c)
      in case outcome of
           Inr result \<Rightarrow>
             (eng\<lparr>workflow_status := (workflow_status eng)(workflow_id context \<mapsto> COMPLETED),
                  active_executions := (active_executions eng)(execution_id context := None)\<rparr>,
              c2\<lparr>status := ''completed'', end_time := Some t_end,
                  duration_seconds := int t_end - int t_start\<rparr>,
              [Event ''workflow_start'' None None] @ events @ [Event ''workflow_complete'' None None],
              Inr result)
         | Inl e \<Rightarrow>
             (eng\<lparr>workflow_status := (workflow_status eng)(workflow_id context \<mapsto> FAILED),
                  active_executions := (active_executions eng)(execution_id context := None)\<rparr>,
              c2\<lparr>status := ''failed'', error := Some (exn_str e), end_time := Some t_end,
                  duration_seconds := int t_end - int t_start\<rparr>,
              [Event ''workflow_start'' None None] @ events
                @ [Event ''workflow_error'' None (Some (exn_str e))],
              Inl (handle_workflow_error e)))"

subsection \<open>Notions used to state the failure policy\<close>

text \<open>A node is marked when its flag says required or a declared output names it; it
  reaches a marked node when some path of edges (possibly empty) leads to one.\<close>

definition marked :: "workflow_def \<Rightarrow> string \<Rightarrow> bool" where
  "marked wd n = (flag_required wd n \<or> output_references wd n)"

definition reaches_marked :: "workflow_def \<Rightarrow> string \<Rightarrow> bool" where
  "reaches_marked wd n = (\<exists>m. (n, m) \<in> (edge_rel wd)\<^sup>* \<and> marked wd m)"

text \<open>The task of a node of a level: its events and its outcome.\<close>

definition node_task :: "execution_context \<Rightarrow> string \<Rightarrow> event list \<times> (exn + pyval)" where
  "node_task context node_id =
     (case active_nodes context node_id of
        None \<Rightarrow> ([], Inr PNone)
      | Some node \<Rightarrow> execute_node node_id node (prepare_node_input node_id context))"

definition node_error_event :: "string \<Rightarrow> string \<Rightarrow> event" where
  "node_error_event n msg = Event ''node_error'' (Some n) (Some msg)"

definition node_start_event :: "string \<Rightarrow> event" where
  "node_start_event n = Event ''node_start'' (Some n) None"

definition level_events :: "execution_context \<Rightarrow> string list \<Rightarrow> event list" where
  "level_events c ids = concat (map fst (map (node_task c) ids))"

definition level_results :: "execution_context \<Rightarrow> string list \<Rightarrow> (string \<rightharpoonup> pyval) \<times> exn option" where
  "level_results c ids =
     process_results (workflow_def c) (map (\<lambda>n. (n, snd (node_task c n))) ids) (node_results c)"

text \<open>What a run over some levels achieves, given which nodes count as required.\<close>

definition run_spec ::
  "(string \<Rightarrow> bool) \<Rightarrow> string list list \<Rightarrow> execution_context
     \<Rightarrow> execution_context \<times> event list \<times> exn option \<Rightarrow> bool" where
  "run_spec req levels c out =
     (case out of (c', evs, raised) \<Rightarrow>
        active_nodes c' = active_nodes c \<and> workflow_def c' = workflow_def c
      \<and> (\<forall>t m x. Event t (Some m) x \<in> set evs \<longrightarrow> m \<in> set (concat levels))
      \<and> (raised = None \<longleftrightarrow> (\<forall>n msg. node_error_event n msg \<in> set evs \<longrightarrow> \<not> req n))
      \<and> (\<forall>x. raised = Some x \<longrightarrow> (\<exists>m. x = WorkflowError m))
      \<and> (raised = None \<longrightarrow>
            (\<forall>n \<in> set (concat levels). node_start_event n \<in> set evs)
          \<and> (\<forall>n msg. node_error_event n msg \<in> set evs \<longrightarrow>
                node_results c' n = Some (PDict [(''error'', PStr msg), (''status'', PStr ''failed'')])))
      \<and> (\<forall>n msg m. node_error_event n msg \<in> set evs \<and> req n \<and> ordered_in levels n m
            \<longrightarrow> node_start_event m \<notin> set evs)
      \<and> (\<forall>m. m \<notin> set (concat levels) \<longrightarrow> node_results c' m = node_results c m))"

section \<open>Concrete inputs used by the witnesses\<close>

definition demo_ctx :: execution_context where
  "demo_ctx = ExecutionContext ''w'' ''e''
     \<lparr>wf_id = None, wf_name = None, nodes = [], edges = [], outputs = []\<rparr> None"

definition ok_instance :: node_instance where
  "ok_instance = \<lparr>validate_config = Some (Inr (VBool True)), configure = (\<lambda>c k. None), execute = (\<lambda>inp. Inr PNone)\<rparr>"

definition flaky :: "nat \<Rightarrow> exn + pyval" where
  "flaky k = (if k < 2 then Inl (Exn [''TimeoutError'', ''Exception''] ''timed out'') else Inr (PInt 7))"

definition broken :: "nat \<Rightarrow> exn + pyval" where
  "broken k = Inl (Exn [''ConnectionError'', ''Exception''] ''refused'')"

definition nd :: node_def where
  "nd = \<lparr>node_type = Some ''Logger'', node_name = None, description = None, config = None,
          credentials = None, required = None\<rparr>"

definition ed :: "string \<Rightarrow> string \<Rightarrow> edge" where
  "ed s t = \<lparr>source = s, target = t, source_output = None, target_input = None\<rparr>"

definition diamond :: workflow_def where
  "diamond = \<lparr>wf_id = None, wf_name = None,
     nodes = [(''A'', nd), (''B'', nd), (''C'', nd), (''D'', nd)],
     edges = [ed ''A'' ''B'', ed ''A'' ''C'', ed ''B'' ''D'', ed ''C'' ''D''], outputs = []\<rparr>"

definition empty_id :: workflow_def where
  "empty_id = \<lparr>wf_id = None, wf_name = None, nodes = [('''', nd), (''a'', nd)],
     edges = [ed '''' ''a''], outputs = []\<rparr>"

definition two_cycle :: workflow_def where
  "two_cycle = \<lparr>wf_id = None, wf_name = None, nodes = [(''a'', nd), (''b'', nd)],
     edges = [ed ''a'' ''b'', ed ''b'' ''a''], outputs = []\<rparr>"

definition empty_id_cycle :: workflow_def where
  "empty_id_cycle = \<lparr>wf_id = None, wf_name = None, nodes = [('''', nd), (''a'', nd)],
     edges = [ed '''' ''a'', ed ''a'' ''''], outputs = []\<rparr>"

definition cyclic_conns :: "connection list" where
  "cyclic_conns = [\<lparr>conn_from = Some ''a.out'', conn_to = Some ''b.in''\<rparr>,
                   \<lparr>conn_from = Some ''b'', conn_to = Some ''a.in''\<rparr>]"




definition failing_instance :: node_instance where
  "failing_instance = \<lparr>validate_config = Some (Inr (VBool True)), configure = (\<lambda>c k. None),
     execute = (\<lambda>inp. Inl (Exn [''RuntimeError'', ''Exception'', ''BaseException''] ''boom''))\<rparr>"

definition failing_registry :: node_registry where
  "failing_registry = \<lparr>node_types = [''Failing'' \<mapsto> (\<lambda>args kwargs. Inr failing_instance)]\<rparr>"

definition failing_workflow :: workflow_def where
  "failing_workflow = \<lparr>wf_id = Some ''wf-1'', wf_name = Some ''demo'',
     nodes = [(''x'', nd\<lparr>node_type := Some ''Failing''\<rparr>)], edges = [], outputs = []\<rparr>"

definition other_workflow :: workflow_def where
  "other_workflow = \<lparr>wf_id = Some ''wf-2'', wf_name = Some ''other'',
     nodes = [(''y'', nd\<lparr>node_type := Some ''Failing''\<rparr>)], edges = [], outputs = []\<rparr>"

definition one_permit_engine :: engine where
  "one_permit_engine = WorkflowEngine (Some 1) failing_registry"

definition started_context :: execution_context where
  "started_context = ExecutionContext ''wf-1'' ''exec-1'' failing_workflow None"

definition started_engine :: engine where
  "started_engine = one_permit_engine
     \<lparr>workflows := [''wf-1'' \<mapsto> failing_workflow],
      workflow_status := [''wf-1'' \<mapsto> RUNNING],
      active_executions := [''exec-1'' \<mapsto> started_context],
      tasks := [''exec-1'']\<rparr>"

definition second_context :: execution_context where
  "second_context = ExecutionContext ''wf-2'' ''exec-2'' other_workflow None"

definition both_started_engine :: engine where
  "both_started_engine = one_permit_engine
     \<lparr>workflows := [''wf-1'' \<mapsto> failing_workflow, ''wf-2'' \<mapsto> other_workflow],
      workflow_status := [''wf-1'' \<mapsto> RUNNING, ''wf-2'' \<mapsto> RUNNING],
      active_executions := [''exec-1'' \<mapsto> started_context, ''exec-2'' \<mapsto> second_context],
      tasks := [''exec-1'', ''exec-2'']\<rparr>"

definition policy_registry :: node_registry where
  "policy_registry = \<lparr>node_types = [''Failing'' \<mapsto> (\<lambda>args kwargs. Inr failing_instance),
                                      ''Logger'' \<mapsto> (\<lambda>args kwargs. Inr ok_instance)]\<rparr>"

definition halting_workflow :: workflow_def where
  "halting_workflow = \<lparr>wf_id = Some ''wf-3'', wf_name = Some ''halting'',
     nodes = [(''x'', nd\<lparr>node_type := Some ''Failing''\<rparr>), (''y'', nd)],
     edges = [ed ''x'' ''y''], outputs = []\<rparr>"

definition optional_workflow :: workflow_def where
  "optional_workflow = \<lparr>wf_id = Some ''wf-4'', wf_name = Some ''optional'',
     nodes = [(''x'', nd\<lparr>node_type := Some ''Failing'', required := Some False\<rparr>),
              (''y'', nd\<lparr>required := Some False\<rparr>)],
     edges = [ed ''x'' ''y''], outputs = []\<rparr>"

definition policy_engine :: engine where
  "policy_engine = WorkflowEngine None policy_registry"

definition halting_context :: execution_context where
  "halting_context = ExecutionContext ''wf-3'' ''exec-3'' halting_workflow None"

definition optional_context :: execution_context where
  "optional_context = ExecutionContext ''wf-4'' ''exec-4'' optional_workflow None"

section \<open>Execution context: private variables\<close>

text \<open>C10: \<open>to_dict\<close> leaves out every variable whose name starts with an underscore: two
  contexts that agree on everything but such variables have equal dictionaries, and
  setting such a variable does not change the dictionary, while \<open>get_variable\<close> still
  returns the stored value.\<close>

theorem to_dict_hides_private:
  "(c1\<lparr>variables := Map.empty\<rparr> = c2\<lparr>variables := Map.empty\<rparr>
      \<and> (\<forall>k. \<not> startswith k ''_'' \<longrightarrow> variables c1 k = variables c2 k)
      \<longrightarrow> to_dict c1 = to_dict c2)
   \<and> (startswith name ''_'' \<longrightarrow>
        to_dict (set_variable c name v) = to_dict c
        \<and> get_variable (set_variable c name v) name dflt = v)"
proof (intro conjI impI)
  assume h: "c1\<lparr>variables := Map.empty\<rparr> = c2\<lparr>variables := Map.empty\<rparr>
      \<and> (\<forall>k. \<not> startswith k ''_'' \<longrightarrow> variables c1 k = variables c2 k)"
  then have eq: "c1\<lparr>variables := Map.empty\<rparr> = c2\<lparr>variables := Map.empty\<rparr>" by simp
  have f: "workflow_id c1 = workflow_id c2" "execution_id c1 = execution_id c2"
    "status c1 = status c2" "error c1 = error c2" "start_time c1 = start_time c2"
    "end_time c1 = end_time c2" "duration_seconds c1 = duration_seconds c2"
    "active_nodes c1 = active_nodes c2" "node_results c1 = node_results c2"
    using eq by (cases c1; cases c2; simp)+
  have "(\<lambda>k. if \<not> startswith k ''_'' then variables c1 k else None)
      = (\<lambda>k. if \<not> startswith k ''_'' then variables c2 k else None)"
    using h by auto
  then show "to_dict c1 = to_dict c2" by (simp add: to_dict_def f)
next
  assume "startswith name ''_''"
  then show "to_dict (set_variable c name v) = to_dict c"
    by (auto simp: to_dict_def set_variable_def fun_eq_iff)
next
  show "get_variable (set_variable c name v) name dflt = v"
    by (simp add: get_variable_def set_variable_def)
qed

theorem to_dict_hides_private_witness:
  "to_dict (set_variable demo_ctx ''_token'' (PStr ''s3cret''))
     = to_dict (set_variable demo_ctx ''_token'' (PStr ''other''))
   \<and> to_dict (set_variable demo_ctx ''_token'' (PStr ''s3cret'')) = to_dict demo_ctx
   \<and> get_variable (set_variable demo_ctx ''_token'' (PStr ''s3cret'')) ''_token'' PNone
       = PStr ''s3cret''"
proof -
  let ?c1 = "set_variable demo_ctx ''_token'' (PStr ''s3cret'')"
  let ?c2 = "set_variable demo_ctx ''_token'' (PStr ''other'')"
  have h1: "?c1\<lparr>variables := Map.empty\<rparr> = ?c2\<lparr>variables := Map.empty\<rparr>"
    by (simp add: set_variable_def)
  have h2: "\<forall>k. \<not> startswith k ''_'' \<longrightarrow> variables ?c1 k = variables ?c2 k"
    by (auto simp: set_variable_def startswith_def)
  have h3: "startswith ''_token'' ''_''"
    by (simp add: startswith_def)
  from to_dict_hides_private [of ?c1 ?c2 "''_token''" demo_ctx "PStr ''s3cret''" PNone] h1 h2 h3
  show ?thesis by blast
qed

section \<open>Node registry: creating nodes\<close>

text \<open>C9, as stated, fails: for a type that is not registered \<open>create_node\<close> returns
  None and raises nothing.\<close>

theorem create_node_unregistered_counterexample:
  "node_types \<lparr>node_types = Map.empty\<rparr> ''Bogus'' = None
   \<and> create_node \<lparr>node_types = Map.empty\<rparr> ''Bogus'' [] [] = Inr None
   \<and> \<not> (\<exists>e. create_node \<lparr>node_types = Map.empty\<rparr> ''Bogus'' [] [] = Inl e)"
  by (simp add: create_node_def)

text \<open>C9, amended: for a type that is not registered \<open>create_node\<close> returns None (no
  exception); for a registered type it returns the instance the bound class produces, and
  raises again what the class raises.\<close>

theorem create_node_result:
  "(node_types reg type_name = None \<longrightarrow> create_node reg type_name args kwargs = Inr None)
   \<and> (\<forall>cls. node_types reg type_name = Some cls \<longrightarrow>
         (\<forall>inst. cls args kwargs = Inr inst \<longrightarrow> create_node reg type_name args kwargs = Inr (Some inst))
       \<and> (\<forall>e. cls args kwargs = Inl e \<longrightarrow> create_node reg type_name args kwargs = Inl e))"
  by (simp add: create_node_def)

theorem create_node_result_witness:
  "create_node \<lparr>node_types = Map.empty\<rparr> ''Bogus'' [] [] = Inr None
   \<and> create_node \<lparr>node_types = [''Logger'' \<mapsto> (\<lambda>a k. Inr ok_instance)]\<rparr> ''Logger'' [] [] = Inr (Some ok_instance)
   \<and> create_node \<lparr>node_types = [''Bad'' \<mapsto> (\<lambda>a k. Inl (KeyError ''x''))]\<rparr> ''Bad'' [] [] = Inl (KeyError ''x'')"
  using create_node_result [of "\<lparr>node_types = Map.empty\<rparr>" "''Bogus''" "[]" "[]"]
    create_node_result [of "\<lparr>node_types = [''Logger'' \<mapsto> (\<lambda>a k. Inr ok_instance)]\<rparr>" "''Logger''" "[]" "[]"]
    create_node_result [of "\<lparr>node_types = [''Bad'' \<mapsto> (\<lambda>a k. Inl (KeyError ''x''))]\<rparr>" "''Bad''" "[]" "[]"]
  by simp

section \<open>Retry policy\<close>

lemma retry_loop_exhaust:
  "attempt = calls \<Longrightarrow> int calls \<le> retries \<Longrightarrow> (\<forall>k. int k \<le> retries \<longrightarrow> (\<exists>e. func k = Inl e)) \<Longrightarrow>
   \<exists>k e. int k \<le> retries \<and> func k = Inl e
         \<and> retry_loop retries exceptions rif func attempt calls = (Inl e, Suc k)"
proof (induction retries exceptions rif func attempt calls rule: retry_loop.induct)
  case (1 retries exceptions rif func attempt calls)
  from "1.prems" obtain e where e: "func calls = Inl e" by blast
  show ?case
  proof (cases "isinstance e exceptions \<and>
      (if int (attempt + 1) < retries \<and> rif \<noteq> None then the rif e else int (attempt + 1) < retries)")
    case False
    then have "retry_loop retries exceptions rif func attempt calls = (Inl e, Suc calls)"
      by (subst retry_loop.simps) (auto simp: e Let_def)
    with e "1.prems" show ?thesis by blast
  next
    case True
    then have lt: "int (attempt + 1) < retries" by (auto split: if_splits)
    have step: "retry_loop retries exceptions rif func attempt calls
        = retry_loop retries exceptions rif func (attempt + 1) (Suc calls)"
      using True by (subst retry_loop.simps) (auto simp: e Let_def)
    have "\<exists>k e. int k \<le> retries \<and> func k = Inl e
         \<and> retry_loop retries exceptions rif func (attempt + 1) (Suc calls) = (Inl e, Suc k)"
      using True lt "1.prems"
      by (intro "1.IH"[OF e]) (auto simp: Let_def)
    with step show ?thesis by simp
  qed
qed

text \<open>C3: with \<open>max_retries = 3\<close> (and no \<open>retry_if\<close>), a function whose first two
  invocations raise exceptions the wrapper retries on and whose third returns, makes the
  wrapper return that result after exactly 3 invocations; and for every
  \<open>max_retries = r\<close>, a function that fails on its first \<open>r + 1\<close> invocations makes the
  wrapper raise, unchanged, the very exception one of those invocations raised.\<close>

theorem retry_policy:
  "(max_retries a = Some 3 \<and> retry_if a = None
      \<and> func 0 = Inl e1 \<and> func 1 = Inl e2 \<and> func 2 = Inr v
      \<and> isinstance e1 (resolve_exceptions a inst) \<and> isinstance e2 (resolve_exceptions a inst)
      \<longrightarrow> wrapper a inst func = (Inr v, 3))
   \<and> (max_retries a = Some r \<and> 0 \<le> r \<and> (\<forall>k. int k \<le> r \<longrightarrow> (\<exists>e. func k = Inl e))
      \<longrightarrow> (\<exists>k e. int k \<le> r \<and> func k = Inl e \<and> wrapper a inst func = (Inl e, Suc k)))"
proof (intro conjI impI)
  assume h: "max_retries a = Some 3 \<and> retry_if a = None
      \<and> func 0 = Inl e1 \<and> func 1 = Inl e2 \<and> func 2 = Inr v
      \<and> isinstance e1 (resolve_exceptions a inst) \<and> isinstance e2 (resolve_exceptions a inst)"
  let ?ex = "resolve_exceptions a inst"
  have r: "resolve_retries a inst = 3" using h by (simp add: resolve_retries_def)
  have f: "func 0 = Inl e1" "func (Suc 0) = Inl e2" "func (Suc (Suc 0)) = Inr v"
    using h by (simp_all add: numeral_2_eq_2)
  have s2: "retry_loop 3 ?ex None func (Suc (Suc 0)) (Suc (Suc 0)) = (Inr v, 3)"
    by (subst retry_loop.simps) (simp add: f numeral_3_eq_3)
  have s1: "retry_loop 3 ?ex None func (Suc 0) (Suc 0)
      = retry_loop 3 ?ex None func (Suc (Suc 0)) (Suc (Suc 0))"
    using h by (subst retry_loop.simps) (simp add: Let_def f)
  have s0: "retry_loop 3 ?ex None func 0 0 = retry_loop 3 ?ex None func (Suc 0) (Suc 0)"
    using h by (subst retry_loop.simps) (simp add: Let_def f)
  have "wrapper a inst func = retry_loop 3 ?ex None func 0 0"
    using h by (simp only: wrapper_def r)
  then show "wrapper a inst func = (Inr v, 3)"
    by (simp only: s0 s1 s2)
next
  assume h: "max_retries a = Some r \<and> 0 \<le> r \<and> (\<forall>k. int k \<le> r \<longrightarrow> (\<exists>e. func k = Inl e))"
  then have r: "resolve_retries a inst = r" by (simp add: resolve_retries_def)
  show "\<exists>k e. int k \<le> r \<and> func k = Inl e \<and> wrapper a inst func = (Inl e, Suc k)"
    unfolding wrapper_def r
    using h by (intro retry_loop_exhaust) auto
qed

theorem retry_policy_witness:
  "wrapper \<lparr>max_retries = Some 3, retry_on = None, retry_if = None\<rparr> None flaky = (Inr (PInt 7), 3)
   \<and> (\<exists>k e. int k \<le> 3 \<and> broken k = Inl e
        \<and> wrapper \<lparr>max_retries = Some 3, retry_on = None, retry_if = None\<rparr> None broken = (Inl e, Suc k))"
proof -
  let ?a = "\<lparr>max_retries = Some 3, retry_on = None, retry_if = None\<rparr>"
  let ?e = "Exn [''TimeoutError'', ''Exception''] ''timed out''"
  have h1: "max_retries ?a = Some 3 \<and> retry_if ?a = None
      \<and> flaky 0 = Inl ?e \<and> flaky 1 = Inl ?e \<and> flaky 2 = Inr (PInt 7)
      \<and> isinstance ?e (resolve_exceptions ?a None) \<and> isinstance ?e (resolve_exceptions ?a None)"
    by (simp add: flaky_def isinstance_def resolve_exceptions_def)
  have h2: "max_retries ?a = Some 3 \<and> (0::int) \<le> 3 \<and> (\<forall>k. int k \<le> 3 \<longrightarrow> (\<exists>e. broken k = Inl e))"
    by (simp add: broken_def)
  from retry_policy [of ?a flaky ?e ?e "PInt 7" None 3] h1
  have a: "wrapper ?a None flaky = (Inr (PInt 7), 3)" by blast
  from retry_policy [of ?a broken ?e ?e "PInt 7" None 3] h2
  have b: "\<exists>k e. int k \<le> 3 \<and> broken k = Inl e \<and> wrapper ?a None broken = (Inl e, Suc k)" by blast
  from a b show ?thesis by blast
qed

section \<open>Dotted-path extraction\<close>

lemma extract_parts_fail:
  "i < length parts \<Longrightarrow> \<not> has_key (extract_parts (take i parts) v) (parts ! i)
    \<Longrightarrow> extract_parts parts v = PNone"
proof (induction parts arbitrary: i v)
  case Nil then show ?case by simp
next
  case (Cons p ps)
  show ?case
  proof (cases i)
    case 0 with Cons.prems show ?thesis by simp
  next
    case (Suc j)
    show ?thesis
    proof (cases "has_key v p")
      case True
      with Cons.prems Suc have "\<not> has_key (extract_parts (take j ps) (getitem v p)) (ps ! j)" by simp
      with Cons.IH[of j "getitem v p"] Cons.prems Suc True show ?thesis by simp
    next
      case False then show ?thesis by simp
    qed
  qed
qed

text \<open>C4: extracting \<open>a.b\<close> from \<open>{a: {b: 5}}\<close> yields 5; for every value and path, if
  at some step the value reached is not a dictionary holding that part, the extraction
  yields None. The extraction is a total function: it has no raising branch.\<close>

theorem extract_path_total:
  "extract_path ''a.b'' (PDict [(''a'', PDict [(''b'', PInt 5)])]) = PInt 5
   \<and> (\<forall>v path i. i < length (split path CHR ''.'')
         \<and> \<not> has_key (extract_parts (take i (split path CHR ''.'')) v) (split path CHR ''.'' ! i)
        \<longrightarrow> extract_path path v = PNone)"
  by (auto simp: extract_path_def intro: extract_parts_fail)

theorem extract_path_total_witness:
  "extract_path ''a.b'' (PDict [(''a'', PDict [(''b'', PInt 5)])]) = PInt 5
   \<and> extract_path ''a.c'' (PDict [(''a'', PDict [(''b'', PInt 5)])]) = PNone
   \<and> extract_path ''a.b.c'' (PDict [(''a'', PDict [(''b'', PInt 5)])]) = PNone"
proof -
  let ?v = "PDict [(''a'', PDict [(''b'', PInt 5)])]"
  have s1: "split ''a.c'' CHR ''.'' = [''a'', ''c'']" by simp
  have s2: "split ''a.b.c'' CHR ''.'' = [''a'', ''b'', ''c'']" by simp
  have h1: "1 < length (split ''a.c'' CHR ''.'')
       \<and> \<not> has_key (extract_parts (take 1 (split ''a.c'' CHR ''.'')) ?v) (split ''a.c'' CHR ''.'' ! 1)"
    unfolding s1 by simp
  have h2: "2 < length (split ''a.b.c'' CHR ''.'')
       \<and> \<not> has_key (extract_parts (take 2 (split ''a.b.c'' CHR ''.'')) ?v) (split ''a.b.c'' CHR ''.'' ! 2)"
    unfolding s2 by (simp add: numeral_2_eq_2)
  from extract_path_total h1 h2 show ?thesis by blast
qed

section \<open>The planner on acyclic definitions\<close>

lemma plan_loop_step:
  assumes "rem \<noteq> []" and "filter (\<lambda>n. deps n = {}) rem \<noteq> []"
  shows "plan_loop deps rem plan =
     plan_loop (\<lambda>n. if n \<in> set (filter (\<lambda>n. deps n \<noteq> {}) rem)
                     then deps n - set (filter (\<lambda>n. deps n = {}) rem) else deps n)
       (filter (\<lambda>n. deps n \<noteq> {}) rem) (plan @ [filter (\<lambda>n. deps n = {}) rem])"
  using assms plan_loop.simps[of deps rem plan] by (simp only: Let_def if_False)

lemma plan_loop_stuck:
  assumes "rem \<noteq> []" and "filter (\<lambda>n. deps n = {}) rem = []"
  shows "plan_loop deps rem plan =
     Inl (WorkflowError (''Cyclic dependency detected among nodes: ''
        @ join '', '' (filter (\<lambda>n. deps n \<noteq> {}) rem)))"
  using assms plan_loop.simps[of deps rem plan] by (simp only: Let_def if_False if_True simp_thms)

lemma plan_loop_done: "plan_loop deps [] plan = Inr plan"
  using plan_loop.simps[of deps "[]" plan] by (simp only: if_True simp_thms)

lemma filter_shrinks:
  "filter P xs \<noteq> [] \<Longrightarrow> length (filter (\<lambda>x. \<not> P x) xs) < length xs"
  using sum_length_filter_compl [of P xs] by (cases "filter P xs") auto

lemma add_dependencies_ok:
  "\<forall>e \<in> set es. source e \<noteq> [] \<and> target e \<noteq> [] \<longrightarrow> target e \<in> set keys \<Longrightarrow>
   add_dependencies keys es deps = Inr (\<lambda>n. deps n \<union> {s. (s, n) \<in> dep_rel es})"
proof (induction es arbitrary: deps)
  case Nil
  then show ?case by (simp add: dep_rel_def)
next
  case (Cons e es)
  have dr: "source e \<noteq> [] \<and> target e \<noteq> [] \<Longrightarrow> dep_rel (e # es) = insert (source e, target e) (dep_rel es)"
    "\<not> (source e \<noteq> [] \<and> target e \<noteq> []) \<Longrightarrow> dep_rel (e # es) = dep_rel es"
    by (auto simp: dep_rel_def)
  show ?case
  proof (cases "source e \<noteq> [] \<and> target e \<noteq> []")
    case True
    with Cons.prems have k: "target e \<in> set keys" by simp
    have "add_dependencies keys (e # es) deps
        = add_dependencies keys es (deps(target e := insert (source e) (deps (target e))))"
      using True k by simp
    also have "\<dots> = Inr (\<lambda>n. (deps(target e := insert (source e) (deps (target e)))) n
                          \<union> {s. (s, n) \<in> dep_rel es})"
      using Cons.prems by (intro Cons.IH) simp
    also have "(\<lambda>n. (deps(target e := insert (source e) (deps (target e)))) n
                          \<union> {s. (s, n) \<in> dep_rel es})
        = (\<lambda>n. deps n \<union> {s. (s, n) \<in> dep_rel (e # es)})"
      by (auto simp: dr(1)[OF True] fun_eq_iff)
    finally show ?thesis .
  next
    case False
    then have "add_dependencies keys (e # es) deps = add_dependencies keys es deps" by auto
    also have "\<dots> = Inr (\<lambda>n. deps n \<union> {s. (s, n) \<in> dep_rel es})"
      using Cons.prems by (intro Cons.IH) simp
    finally show ?thesis by (simp add: dr(2)[OF False])
  qed
qed

lemma ordered_in_append:
  assumes "ordered_in plan s t"
  shows "ordered_in (plan @ [level]) s t"
proof -
  from assms obtain i j where ij: "i < j" "j < length plan" "s \<in> set (plan ! i)" "t \<in> set (plan ! j)"
    unfolding ordered_in_def by blast
  then have "i < j \<and> j < length (plan @ [level])
      \<and> s \<in> set ((plan @ [level]) ! i) \<and> t \<in> set ((plan @ [level]) ! j)"
    by (simp add: nth_append)
  then show ?thesis unfolding ordered_in_def by blast
qed

lemma ordered_in_new:
  assumes "s \<in> set (concat plan)" "t \<in> set level"
  shows "ordered_in (plan @ [level]) s t"
proof -
  from assms(1) obtain l where "l \<in> set plan" "s \<in> set l" by auto
  then obtain i where i: "i < length plan" "plan ! i = l" by (auto simp: in_set_conv_nth)
  have "i < length plan \<and> length plan < length (plan @ [level])
      \<and> s \<in> set ((plan @ [level]) ! i) \<and> t \<in> set ((plan @ [level]) ! length plan)"
    using i \<open>s \<in> set l\<close> assms(2) by (simp add: nth_append)
  then show ?thesis unfolding ordered_in_def by blast
qed

lemma plan_inv_step:
  assumes inv: "plan_inv E K deps rem plan"
    and level: "level = filter (\<lambda>n. deps n = {}) rem"
    and rem': "rem' = filter (\<lambda>n. deps n \<noteq> {}) rem"
  shows "plan_inv E K (\<lambda>n. if n \<in> set rem' then deps n - set level else deps n) rem' (plan @ [level])"
proof -
  have part: "set level \<union> set rem' = set rem" "set level \<inter> set rem' = {}"
    using level rem' by auto
  have d: "distinct level" "distinct rem'" "set level \<subseteq> set rem"
    using inv level rem' by (auto simp: plan_inv_def)
  have "distinct (concat (plan @ [level]))"
    using inv d by (auto simp: plan_inv_def)
  moreover have "set rem' \<inter> set (concat (plan @ [level])) = {}"
    using inv part rem' by (auto simp: plan_inv_def)
  moreover have "set rem' \<union> set (concat (plan @ [level])) = K"
    using inv part by (auto simp: plan_inv_def)
  moreover have "\<forall>n \<in> set rem'. (if n \<in> set rem' then deps n - set level else deps n)
        = {s. (s, n) \<in> E} - set (concat (plan @ [level]))"
  proof
    fix n assume n: "n \<in> set rem'"
    then have "n \<in> set rem" using part by auto
    then have "deps n = {s. (s, n) \<in> E} - set (concat plan)" using inv by (simp add: plan_inv_def)
    then show "(if n \<in> set rem' then deps n - set level else deps n)
        = {s. (s, n) \<in> E} - set (concat (plan @ [level]))"
      using n by auto
  qed
  ultimately show ?thesis using d by (simp add: plan_inv_def)
qed

lemma plan_loop_topological:
  assumes "plan_inv E K deps rem plan"
    and "finite E" and "acyclic E" and "fst ` E \<subseteq> K"
    and "\<forall>(s, t) \<in> E. t \<in> set (concat plan) \<longrightarrow> ordered_in plan s t"
  shows "\<exists>plan'. plan_loop deps rem plan = Inr plan' \<and> distinct (concat plan')
           \<and> set (concat plan') = K
           \<and> (\<forall>(s, t) \<in> E. t \<in> K \<longrightarrow> ordered_in plan' s t)"
  using assms
proof (induction "length rem" arbitrary: deps rem plan rule: less_induct)
  case less
  show ?case
  proof (cases "rem = []")
    case True
    have "set (concat plan) = K" "distinct (concat plan)"
      using less.prems(1) True by (auto simp: plan_inv_def)
    then show ?thesis using less.prems(5) True by (simp add: plan_loop_done)
  next
    case False
    define level where "level = filter (\<lambda>n. deps n = {}) rem"
    define rem' where "rem' = filter (\<lambda>n. deps n \<noteq> {}) rem"
    define deps' where "deps' = (\<lambda>n. if n \<in> set rem' then deps n - set level else deps n)"
    have wfE: "wf E" using less.prems(2,3) by (rule finite_acyclic_wf)
    from False obtain x where "x \<in> set rem" by (cases rem) auto
    with wfE obtain z where z: "z \<in> set rem" "\<And>y. (y, z) \<in> E \<Longrightarrow> y \<notin> set rem"
      by (rule wfE_min) blast
    have "deps z = {}"
    proof -
      have dz: "deps z = {s. (s, z) \<in> E} - set (concat plan)"
        using less.prems(1) z(1) by (simp add: plan_inv_def)
      have "\<And>s. (s, z) \<in> E \<Longrightarrow> s \<in> set (concat plan)"
      proof -
        fix s assume sz: "(s, z) \<in> E"
        then have "s \<in> K" using less.prems(4) by force
        moreover have "s \<notin> set rem" using z(2) sz by blast
        ultimately show "s \<in> set (concat plan)" using less.prems(1) by (auto simp: plan_inv_def)
      qed
      with dz show ?thesis by auto
    qed
    with z(1) have lne: "level \<noteq> []" unfolding level_def by (auto simp: filter_empty_conv)
    have step: "plan_loop deps rem plan = plan_loop deps' rem' (plan @ [level])"
      unfolding deps'_def rem'_def level_def
      using False lne[unfolded level_def] by (rule plan_loop_step)
    have shorter: "length rem' < length rem"
      unfolding rem'_def using lne[unfolded level_def] by (rule filter_shrinks)
    have inv': "plan_inv E K deps' rem' (plan @ [level])"
      unfolding deps'_def using less.prems(1) level_def rem'_def by (rule plan_inv_step)
    have ord': "\<forall>(s, t) \<in> E. t \<in> set (concat (plan @ [level])) \<longrightarrow> ordered_in (plan @ [level]) s t"
    proof (clarify)
      fix s t assume st: "(s, t) \<in> E" and t: "t \<in> set (concat (plan @ [level]))"
      show "ordered_in (plan @ [level]) s t"
      proof (cases "t \<in> set (concat plan)")
        case True
        with less.prems(5) st have "ordered_in plan s t" by auto
        then show ?thesis by (rule ordered_in_append)
      next
        case False
        with t have tl: "t \<in> set level" by auto
        then have tr: "t \<in> set rem" "deps t = {}" unfolding level_def by auto
        then have "{s. (s, t) \<in> E} - set (concat plan) = {}"
          using less.prems(1) by (auto simp: plan_inv_def)
        with st have "s \<in> set (concat plan)" by auto
        then show ?thesis using tl by (rule ordered_in_new)
      qed
    qed
    from less.hyps[OF shorter inv' less.prems(2,3,4) ord'] step
    show ?thesis by simp
  qed
qed

lemma level_index_Some:
  "distinct (concat plan) \<Longrightarrow> i < length plan \<Longrightarrow> n \<in> set (plan ! i) \<Longrightarrow> level_index plan n = Some i"
proof (induction plan arbitrary: i)
  case Nil then show ?case by simp
next
  case (Cons l ls)
  show ?case
  proof (cases i)
    case 0 with Cons.prems show ?thesis by simp
  next
    case (Suc k)
    with Cons.prems have k: "k < length ls" "n \<in> set (ls ! k)" by simp_all
    moreover from k have "ls ! k \<in> set ls" by simp
    ultimately have "n \<in> set (concat ls)" by auto
    with Cons.prems(1) have "n \<notin> set l" by auto
    moreover have "level_index ls n = Some k" using Cons.IH[of k] Cons.prems(1) k by simp
    ultimately show ?thesis using Suc by simp
  qed
qed

lemma ordered_in_level_index:
  assumes "distinct (concat plan)" "ordered_in plan s t"
  shows "\<exists>i j. level_index plan s = Some i \<and> level_index plan t = Some j \<and> i < j"
proof -
  from assms(2) obtain i j where ij: "j < length plan" "i < j" "s \<in> set (plan ! i)" "t \<in> set (plan ! j)"
    unfolding ordered_in_def by blast
  then have "level_index plan s = Some i" "level_index plan t = Some j"
    using assms(1) by (auto intro: level_index_Some)
  with ij show ?thesis by blast
qed

lemma dep_rel_subset: "dep_rel (edges wd) \<subseteq> edge_rel wd"
  by (auto simp: dep_rel_def edge_rel_def)

lemma finite_dep_rel: "finite (dep_rel es)"
  by (simp add: dep_rel_def)

text \<open>C1, amended: for every acyclic definition whose edges have their source and target
  among the keys of \<open>nodes\<close>, \<open>_build_execution_plan\<close> returns levels whose concatenation
  holds every node id exactly once, and for every edge whose source and target are both
  non-empty the level of its source comes strictly before the level of its target. (The
  planner skips an edge with a falsy endpoint, so such an edge orders nothing.)\<close>

theorem plan_topological:
  "acyclic (edge_rel wd)
   \<and> (\<forall>e \<in> set (edges wd). source e \<in> node_id_set wd \<and> target e \<in> node_id_set wd)
   \<longrightarrow> (\<exists>plan. build_execution_plan wd = Inr plan
          \<and> distinct (concat plan) \<and> set (concat plan) = node_id_set wd
          \<and> (\<forall>e \<in> set (edges wd). source e \<noteq> [] \<and> target e \<noteq> [] \<longrightarrow>
                (\<exists>i j. level_index plan (source e) = Some i
                     \<and> level_index plan (target e) = Some j \<and> i < j)))"
proof
  assume h: "acyclic (edge_rel wd)
   \<and> (\<forall>e \<in> set (edges wd). source e \<in> node_id_set wd \<and> target e \<in> node_id_set wd)"
  let ?keys = "remdups (map fst (nodes wd))"
  let ?E = "dep_rel (edges wd)"
  let ?deps = "\<lambda>n. {} \<union> {s. (s, n) \<in> ?E}"
  have keys: "set ?keys = node_id_set wd" by (simp add: node_id_set_def)
  have add: "add_dependencies ?keys (edges wd) (\<lambda>n. {}) = Inr ?deps"
    using h keys by (intro add_dependencies_ok) simp
  have bp: "build_execution_plan wd = plan_loop ?deps ?keys []"
    by (simp add: build_execution_plan_def add Let_def)
  have inv: "plan_inv ?E (node_id_set wd) ?deps ?keys []"
    using keys by (simp add: plan_inv_def)
  have acy: "acyclic ?E" using h dep_rel_subset by (blast intro: acyclic_subset)
  have src: "fst ` ?E \<subseteq> node_id_set wd" using h by (auto simp: dep_rel_def)
  have tgt: "\<And>s t. (s, t) \<in> ?E \<Longrightarrow> t \<in> node_id_set wd" using h by (auto simp: dep_rel_def)
  from plan_loop_topological[OF inv finite_dep_rel acy src]
  obtain plan where p: "plan_loop ?deps ?keys [] = Inr plan" "distinct (concat plan)"
      "set (concat plan) = node_id_set wd"
      "\<forall>(s, t) \<in> ?E. t \<in> node_id_set wd \<longrightarrow> ordered_in plan s t"
    by auto
  have "\<forall>e \<in> set (edges wd). source e \<noteq> [] \<and> target e \<noteq> [] \<longrightarrow>
                (\<exists>i j. level_index plan (source e) = Some i
                     \<and> level_index plan (target e) = Some j \<and> i < j)"
  proof (intro ballI impI)
    fix e assume e: "e \<in> set (edges wd)" "source e \<noteq> [] \<and> target e \<noteq> []"
    then have in_E: "(source e, target e) \<in> ?E" by (auto simp: dep_rel_def)
    with tgt p(4) have "ordered_in plan (source e) (target e)" by blast
    with p(2) show "\<exists>i j. level_index plan (source e) = Some i
                     \<and> level_index plan (target e) = Some j \<and> i < j"
      by (rule ordered_in_level_index)
  qed
  with p bp show "\<exists>plan. build_execution_plan wd = Inr plan
          \<and> distinct (concat plan) \<and> set (concat plan) = node_id_set wd
          \<and> (\<forall>e \<in> set (edges wd). source e \<noteq> [] \<and> target e \<noteq> [] \<longrightarrow>
                (\<exists>i j. level_index plan (source e) = Some i
                     \<and> level_index plan (target e) = Some j \<and> i < j))"
    by simp
qed

lemma acyclic_diamond: "acyclic (edge_rel diamond)"
proof (rule acyclicI_order)
  fix a b assume "(a, b) \<in> edge_rel diamond"
  then show "(if b = ''A'' then 3 else if b = ''D'' then 1 else (2::nat))
           < (if a = ''A'' then 3 else if a = ''D'' then 1 else 2)"
    by (auto simp: edge_rel_def diamond_def ed_def)
qed

theorem plan_topological_witness:
  "build_execution_plan diamond = Inr [[''A''], [''B'', ''C''], [''D'']]
   \<and> (\<exists>plan. build_execution_plan diamond = Inr plan
          \<and> distinct (concat plan) \<and> set (concat plan) = node_id_set diamond
          \<and> (\<forall>e \<in> set (edges diamond). source e \<noteq> [] \<and> target e \<noteq> [] \<longrightarrow>
                (\<exists>i j. level_index plan (source e) = Some i
                     \<and> level_index plan (target e) = Some j \<and> i < j)))"
proof -
  have h: "acyclic (edge_rel diamond)
   \<and> (\<forall>e \<in> set (edges diamond). source e \<in> node_id_set diamond \<and> target e \<in> node_id_set diamond)"
    using acyclic_diamond by (simp add: diamond_def ed_def node_id_set_def)
  have "build_execution_plan diamond = Inr [[''A''], [''B'', ''C''], [''D'']]"
    by (simp add: build_execution_plan_def diamond_def ed_def plan_loop.simps Let_def)
  with plan_topological [of diamond] h show ?thesis by blast
qed

text \<open>C1, as stated, fails when a node id is the empty string: the definition with nodes
  \<open>''\<close> and \<open>a\<close> and the single edge from \<open>''\<close> to \<open>a\<close> is acyclic and its edge
  connects keys of \<open>nodes\<close>, yet the guard \<open>if source and target\<close> skips the edge and
  both nodes land in level 0.\<close>

theorem plan_empty_id_counterexample:
  "acyclic (edge_rel empty_id)
   \<and> edges empty_id = [ed '''' ''a'']
   \<and> source (ed '''' ''a'') \<in> node_id_set empty_id \<and> target (ed '''' ''a'') \<in> node_id_set empty_id
   \<and> build_execution_plan empty_id = Inr [['''', ''a'']]
   \<and> level_index [['''', ''a'']] (source (ed '''' ''a'')) = Some 0
   \<and> level_index [['''', ''a'']] (target (ed '''' ''a'')) = Some 0"
proof -
  have "edge_rel empty_id = {('''', ''a'')}" by (simp add: edge_rel_def empty_id_def ed_def)
  then have "acyclic (edge_rel empty_id)" by (simp add: acyclic_insert wf_acyclic)
  moreover have "build_execution_plan empty_id = Inr [['''', ''a'']]"
    by (simp add: build_execution_plan_def empty_id_def ed_def plan_loop.simps Let_def)
  ultimately show ?thesis by (simp add: empty_id_def ed_def node_id_set_def)
qed

section \<open>The depth-first cycle check\<close>

lemma is_walk_append:
  "is_walk g p \<Longrightarrow> (p \<noteq> [] \<Longrightarrow> u \<in> set (g (last p))) \<Longrightarrow> is_walk g (p @ [u])"
  by (induction g p rule: is_walk.induct) auto

lemma is_walk_dropWhile: "is_walk g p \<Longrightarrow> is_walk g (dropWhile P p)"
  by (induction g p rule: is_walk.induct) auto

lemma back_edge_cycle:
  assumes "is_walk g p" "v \<in> set p" "v \<in> set (g (last p))"
  shows "is_cycle g (dropWhile (\<lambda>x. x \<noteq> v) p @ [v])"
proof -
  let ?q = "dropWhile (\<lambda>x. x \<noteq> v) p"
  from assms(2) have ne: "?q \<noteq> []" by (simp add: dropWhile_eq_Nil_conv) 
  have hd: "hd ?q = v" using assms(2) hd_dropWhile[of "\<lambda>x. x \<noteq> v" p] ne by auto
  have "p \<noteq> []" using assms(2) by auto
  have last: "last ?q = last p"
    using ne by (metis append_Nil2 last_appendR takeWhile_dropWhile_id)
  have "is_walk g ?q" using assms(1) by (rule is_walk_dropWhile)
  then have "is_walk g (?q @ [v])" using assms(3) last by (intro is_walk_append) auto
  moreover have "2 \<le> length (?q @ [v])" using ne by (cases ?q) auto
  moreover have "hd (?q @ [v]) = last (?q @ [v])" using ne hd by simp
  ultimately show ?thesis by (simp add: is_cycle_def)
qed

lemma closed_rtrancl:
  assumes "(w, u) \<in> (graph_rel g)\<^sup>*" "w \<in> B" "\<forall>b \<in> B. set (g b) \<subseteq> B"
  shows "u \<in> B"
  using assms by (induction rule: rtrancl_induct) (auto simp: graph_rel_def)

lemma card_unvisited:
  assumes "finite V" "u \<in> V" "u \<notin> vis" "insert u vis \<subseteq> vis'" "card (V - vis) \<le> Suc k"
  shows "card (V - vis') \<le> k"
proof -
  have "V - vis' \<subseteq> (V - vis) - {u}" using assms(4) by auto
  then have "card (V - vis') \<le> card ((V - vis) - {u})"
    using assms(1) by (intro card_mono) auto
  also have "\<dots> = card (V - vis) - 1" using assms(1,2,3) by simp
  finally show ?thesis using assms(5) by simp
qed

lemma dfs_invD:
  assumes "dfs_inv g V s"
  shows "recursion_stack s = set (current_path s)" "distinct (current_path s)"
    "is_walk g (current_path s)" "recursion_stack s \<subseteq> visited s" "visited s \<subseteq> V"
    "\<forall>b \<in> visited s - recursion_stack s. set (g b) \<subseteq> visited s - recursion_stack s"
    "\<forall>b \<in> visited s - recursion_stack s. (b, b) \<notin> (graph_rel g)\<^sup>+"
  using assms unfolding dfs_inv_def by blast+

lemma dfs_loop_correct:
  assumes fin: "finite V"
    and rec: "\<And>v s1. dfs_inv g V s1 \<Longrightarrow> v \<in> V \<Longrightarrow> v \<notin> visited s1 \<Longrightarrow> card (V - visited s1) \<le> k
        \<Longrightarrow> (current_path s1 \<noteq> [] \<Longrightarrow> v \<in> set (g (last (current_path s1))))
        \<Longrightarrow> \<exists>r. rec v s1 = Some r \<and> dfs_post g V s1 v r"
    and gV: "set (g u) \<subseteq> V"
  shows "dfs_inv g V s1 \<Longrightarrow> current_path s1 \<noteq> [] \<Longrightarrow> last (current_path s1) = u
     \<Longrightarrow> set vs \<subseteq> set (g u) \<Longrightarrow> card (V - visited s1) \<le> k
     \<Longrightarrow> \<exists>r. dfs_loop rec vs s1 = Some r \<and> loop_post g V s1 vs r"
proof (induction vs arbitrary: s1)
  case Nil
  then show ?case by (simp add: loop_post_def)
next
  case (Cons v vs)
  have vg: "v \<in> set (g u)" and vsg: "set vs \<subseteq> set (g u)" using Cons.prems(4) by auto
  have vV: "v \<in> V" using vg gV by auto
  show ?case
  proof (cases "v \<in> visited s1")
    case False
    from rec[OF Cons.prems(1) vV False Cons.prems(5)] vg Cons.prems(3)
    obtain r where r: "rec v s1 = Some r" "dfs_post g V s1 v r" by auto
    show ?thesis
    proof (cases r)
      case (Inl e)
      with r False show ?thesis by (simp add: loop_post_def dfs_post_def)
    next
      case (Inr s')
      with r(2) have s': "dfs_inv g V s'" "insert v (visited s1) \<subseteq> visited s'"
        "recursion_stack s' = recursion_stack s1" "current_path s' = current_path s1"
        by (simp_all add: dfs_post_def)
      have "V - visited s' \<subseteq> V - visited s1" using s'(2) by auto
      then have "card (V - visited s') \<le> card (V - visited s1)"
        using fin by (intro card_mono) auto
      with Cons.prems(5) have c': "card (V - visited s') \<le> k" by simp
      from Cons.IH[OF s'(1) _ _ vsg c'] Cons.prems(2,3) s'(4)
      obtain r2 where r2: "dfs_loop rec vs s' = Some r2" "loop_post g V s' vs r2" by auto
      have eq: "dfs_loop rec (v # vs) s1 = Some r2" using False r(1) Inr r2(1) by simp
      have "loop_post g V s1 (v # vs) r2"
      proof (cases r2)
        case (Inl e)
        with r2(2) show ?thesis by (simp add: loop_post_def)
      next
        case (Inr s2)
        with r2(2) have s2: "dfs_inv g V s2" "visited s' \<subseteq> visited s2"
          "recursion_stack s2 = recursion_stack s'" "current_path s2 = current_path s'"
          "set vs \<subseteq> visited s2 - recursion_stack s2"
          by (auto simp: loop_post_def)
        have "recursion_stack s1 \<subseteq> visited s1" using Cons.prems(1) by (auto simp: dfs_inv_def)
        with False have "v \<notin> recursion_stack s2" using s2(3) s'(3) by auto
        moreover have "v \<in> visited s2" using s'(2) s2(2) by auto
        ultimately show ?thesis using Inr s2 s' by (auto simp: loop_post_def)
      qed
      with eq show ?thesis by blast
    qed
  next
    case True
    show ?thesis
    proof (cases "v \<in> recursion_stack s1")
      case True
      then have vp: "v \<in> set (current_path s1)" using Cons.prems(1) by (auto simp: dfs_inv_def)
      have w: "is_walk g (current_path s1)" using Cons.prems(1) by (auto simp: dfs_inv_def)
      have "is_cycle g (dropWhile (\<lambda>x. x \<noteq> v) (current_path s1) @ [v])"
        using w vp vg Cons.prems(3) by (intro back_edge_cycle) auto
      then have "reports_cycle g (cycle_error v (current_path s1))"
        using vp by (auto simp: reports_cycle_def cycle_error_def)
      moreover have "dfs_loop rec (v # vs) s1 = Some (Inl (cycle_error v (current_path s1)))"
        using True \<open>v \<in> visited s1\<close> by simp
      ultimately show ?thesis by (simp add: loop_post_def)
    next
      case False
      from Cons.IH[OF Cons.prems(1,2,3) vsg Cons.prems(5)]
      obtain r2 where r2: "dfs_loop rec vs s1 = Some r2" "loop_post g V s1 vs r2" by auto
      have eq: "dfs_loop rec (v # vs) s1 = Some r2" using False True r2(1) by simp
      have "loop_post g V s1 (v # vs) r2"
        using r2(2) True False by (cases r2) (auto simp: loop_post_def)
      with eq show ?thesis by blast
    qed
  qed
qed

lemma dfs_correct:
  assumes fin: "finite V" and gV: "\<forall>x. set (g x) \<subseteq> V"
  shows "dfs_inv g V s \<Longrightarrow> u \<in> V \<Longrightarrow> u \<notin> visited s \<Longrightarrow> card (V - visited s) \<le> k
     \<Longrightarrow> (current_path s \<noteq> [] \<Longrightarrow> u \<in> set (g (last (current_path s))))
     \<Longrightarrow> \<exists>r. dfs_cycle_check_recursive k g u s = Some r \<and> dfs_post g V s u r"
proof (induction k arbitrary: u s)
  case 0
  have "u \<in> V - visited s" using "0.prems" by simp
  moreover have "finite (V - visited s)" using fin by simp
  ultimately have "0 < card (V - visited s)" by (auto simp: card_gt_0_iff)
  with "0.prems"(4) show ?case by simp
next
  case (Suc k)
  define s1 where "s1 = s\<lparr>visited := insert u (visited s),
      recursion_stack := insert u (recursion_stack s), current_path := current_path s @ [u]\<rparr>"
  have sel: "visited s1 = insert u (visited s)" "recursion_stack s1 = insert u (recursion_stack s)"
    "current_path s1 = current_path s @ [u]"
    by (simp_all add: s1_def)
  have inv: "recursion_stack s = set (current_path s)" "distinct (current_path s)"
    "is_walk g (current_path s)" "recursion_stack s \<subseteq> visited s" "visited s \<subseteq> V"
    "\<forall>b \<in> visited s - recursion_stack s. set (g b) \<subseteq> visited s - recursion_stack s"
    "\<forall>b \<in> visited s - recursion_stack s. (b, b) \<notin> (graph_rel g)\<^sup>+"
    using Suc.prems(1) by (rule dfs_invD)+
  have un: "u \<notin> recursion_stack s" "u \<notin> set (current_path s)"
    using inv(1,4) Suc.prems(3) by auto
  have black1: "visited s1 - recursion_stack s1 = visited s - recursion_stack s"
    using Suc.prems(3) by (auto simp: sel)
  have inv1: "dfs_inv g V s1"
    unfolding dfs_inv_def black1
    using inv un Suc.prems(2,5) by (auto simp: sel intro: is_walk_append)
  have c1: "card (V - visited s1) \<le> k"
    using fin Suc.prems(2,3) _ Suc.prems(4) by (rule card_unvisited) (simp add: sel)
  have "\<exists>r. dfs_loop (dfs_cycle_check_recursive k g) (g u) s1 = Some r \<and> loop_post g V s1 (g u) r"
  proof (rule dfs_loop_correct[where k = k and u = u, OF fin])
    show "\<And>v s1. dfs_inv g V s1 \<Longrightarrow> v \<in> V \<Longrightarrow> v \<notin> visited s1 \<Longrightarrow> card (V - visited s1) \<le> k
        \<Longrightarrow> (current_path s1 \<noteq> [] \<Longrightarrow> v \<in> set (g (last (current_path s1))))
        \<Longrightarrow> \<exists>r. dfs_cycle_check_recursive k g v s1 = Some r \<and> dfs_post g V s1 v r"
      by (rule Suc.IH)
    show "set (g u) \<subseteq> V" using gV by simp
    show "dfs_inv g V s1" by (rule inv1)
    show "current_path s1 \<noteq> []" by (simp add: sel)
    show "last (current_path s1) = u" by (simp add: sel)
    show "set (g u) \<subseteq> set (g u)" by simp
    show "card (V - visited s1) \<le> k" by (rule c1)
  qed
  then obtain r where r: "dfs_loop (dfs_cycle_check_recursive k g) (g u) s1 = Some r"
    "loop_post g V s1 (g u) r" by blast
  show ?case
  proof (cases r)
    case (Inl e)
    with r have "dfs_cycle_check_recursive (Suc k) g u s = Some (Inl e)" "reports_cycle g e"
      by (simp_all add: s1_def[symmetric] loop_post_def)
    then show ?thesis by (simp add: dfs_post_def)
  next
    case (Inr s2)
    with r(2) have s2: "dfs_inv g V s2" "visited s1 \<subseteq> visited s2"
      "recursion_stack s2 = recursion_stack s1" "current_path s2 = current_path s1"
      "set (g u) \<subseteq> visited s2 - recursion_stack s2"
      by (auto simp: loop_post_def)
    have inv2: "visited s2 \<subseteq> V"
      "\<forall>b \<in> visited s2 - recursion_stack s2. set (g b) \<subseteq> visited s2 - recursion_stack s2"
      "\<forall>b \<in> visited s2 - recursion_stack s2. (b, b) \<notin> (graph_rel g)\<^sup>+"
      using s2(1) by (rule dfs_invD)+
    define s3 where "s3 = s2\<lparr>current_path := butlast (current_path s2),
      recursion_stack := recursion_stack s2 - {u}\<rparr>"
    have sel3: "visited s3 = visited s2" "recursion_stack s3 = recursion_stack s"
      "current_path s3 = current_path s"
      using un by (auto simp: s3_def s2 sel)
    have res: "dfs_cycle_check_recursive (Suc k) g u s = Some (Inr s3)"
      using r(1) Inr by (simp add: s1_def[symmetric] s2 sel s3_def)
    have black3: "visited s3 - recursion_stack s3 = insert u (visited s2 - recursion_stack s2)"
      using un s2(2) by (auto simp: sel3 s2(3) sel)
    have u_acyclic: "(u, u) \<notin> (graph_rel g)\<^sup>+"
    proof
      assume "(u, u) \<in> (graph_rel g)\<^sup>+"
      then obtain w where w: "(u, w) \<in> graph_rel g" "(w, u) \<in> (graph_rel g)\<^sup>*"
        by (auto dest: tranclD)
      then have "w \<in> visited s2 - recursion_stack s2" using s2(5) by (auto simp: graph_rel_def)
      with w(2) have "u \<in> visited s2 - recursion_stack s2" using inv2(2) by (rule closed_rtrancl)
      then show False by (simp add: s2(3) sel)
    qed
    have inv3: "dfs_inv g V s3"
      unfolding dfs_inv_def black3
      using inv(1,2,3,4) inv2 s2(2,5) u_acyclic by (auto simp: sel3 sel)
    have "insert u (visited s) \<subseteq> visited s3" using s2(2) by (simp add: sel3 sel)
    with inv3 res sel3 show ?thesis by (simp add: dfs_post_def)
  qed
qed

lemma update_path_Nil: "current_path s = [] \<Longrightarrow> s\<lparr>current_path := []\<rparr> = s"
  by (cases s) simp

lemma check_nodes_correct:
  assumes fin: "finite V" and gV: "\<forall>x. set (g x) \<subseteq> V" and k: "card V \<le> k"
  shows "dfs_inv g V s \<Longrightarrow> current_path s = [] \<Longrightarrow> set ns \<subseteq> V
     \<Longrightarrow> \<exists>r. check_nodes k g ns s = Some r \<and> top_post g V s ns r"
proof (induction ns arbitrary: s)
  case Nil
  then show ?case by (simp add: top_post_def)
next
  case (Cons n ns)
  show ?case
  proof (cases "n \<in> visited s")
    case True
    from Cons.IH[OF Cons.prems(1,2)] Cons.prems(3)
    obtain r where r: "check_nodes k g ns s = Some r" "top_post g V s ns r" by auto
    have "check_nodes k g (n # ns) s = Some r" using True r(1) by simp
    moreover have "top_post g V s (n # ns) r"
      using r(2) True by (cases r) (auto simp: top_post_def)
    ultimately show ?thesis by blast
  next
    case False
    have "V - visited s \<subseteq> V" by auto
    then have "card (V - visited s) \<le> card V" using fin by (intro card_mono) auto
    with k have c: "card (V - visited s) \<le> k" by simp
    have nV: "n \<in> V" using Cons.prems(3) by simp
    from dfs_correct[OF fin gV Cons.prems(1) nV False c] Cons.prems(2)
    obtain r where r: "dfs_cycle_check_recursive k g n s = Some r" "dfs_post g V s n r" by auto
    have reset: "s\<lparr>current_path := []\<rparr> = s" using Cons.prems(2) by (rule update_path_Nil)
    show ?thesis
    proof (cases r)
      case (Inl e)
      with r False reset show ?thesis by (simp add: top_post_def dfs_post_def)
    next
      case (Inr s')
      with r(2) have s': "dfs_inv g V s'" "insert n (visited s) \<subseteq> visited s'"
        "current_path s' = current_path s"
        by (auto simp: dfs_post_def)
      from Cons.IH[OF s'(1)] s'(3) Cons.prems(2,3)
      obtain r2 where r2: "check_nodes k g ns s' = Some r2" "top_post g V s' ns r2" by auto
      have "check_nodes k g (n # ns) s = Some r2" using False r(1) Inr r2(1) reset by simp
      moreover have "top_post g V s (n # ns) r2"
        using r2(2) s'(2) by (cases r2) (auto simp: top_post_def)
      ultimately show ?thesis by blast
    qed
  qed
qed

lemma build_graph_rel:
  "graph_rel (build_graph keys conns g) = graph_rel g \<union> conn_rel keys conns"
proof (induction conns arbitrary: g)
  case Nil
  then show ?case by (simp add: conn_rel_def)
next
  case (Cons c conns)
  have cr: "conn_rel keys (c # conns)
      = (case connection_edge keys c of None \<Rightarrow> {} | Some e \<Rightarrow> {e}) \<union> conn_rel keys conns"
    by (auto simp: conn_rel_def split: option.splits)
  show ?case
  proof (cases "connection_edge keys c")
    case None
    then have "build_graph keys (c # conns) g = build_graph keys conns g"
      by (auto simp: connection_edge_def Let_def falsy_def str_opt_def split: if_splits)
    with Cons.IH[of g] None cr show ?thesis by simp
  next
    case (Some e)
    obtain a b where e: "e = (a, b)" by (cases e)
    from Some e have bg: "build_graph keys (c # conns) g = build_graph keys conns (g(a := g a @ [b]))"
      by (auto simp: connection_edge_def Let_def falsy_def str_opt_def split: if_splits)
    have ins: "graph_rel (g(a := g a @ [b])) = insert (a, b) (graph_rel g)"
      by (auto simp: graph_rel_def split: if_splits)
    have "graph_rel (build_graph keys (c # conns) g)
        = graph_rel (g(a := g a @ [b])) \<union> conn_rel keys conns"
      unfolding bg by (rule Cons.IH)
    also have "\<dots> = graph_rel g \<union> conn_rel keys (c # conns)"
      unfolding ins cr Some e by auto
    finally show ?thesis .
  qed
qed

lemma finite_conn_rel: "finite (conn_rel keys conns)"
proof -
  have "conn_rel keys conns \<subseteq> the ` connection_edge keys ` set conns"
    by (force simp: conn_rel_def)
  then show ?thesis by (rule finite_subset) simp
qed

lemma card_conn_targets: "card (snd ` conn_rel keys conns) \<le> length conns"
proof -
  have "snd ` conn_rel keys conns \<subseteq> (\<lambda>c. snd (the (connection_edge keys c))) ` set conns"
    by (force simp: conn_rel_def)
  then have "card (snd ` conn_rel keys conns) \<le> card ((\<lambda>c. snd (the (connection_edge keys c))) ` set conns)"
    by (intro card_mono) auto
  also have "\<dots> \<le> card (set conns)" by (rule card_image_le) simp
  also have "\<dots> \<le> length conns" by (rule card_length)
  finally show ?thesis .
qed

lemma conn_rel_sources: "(a, b) \<in> conn_rel keys conns \<Longrightarrow> a \<in> set keys"
  by (auto simp: conn_rel_def connection_edge_def Let_def split: if_splits)

lemma check_for_cycles_result:
  "(\<exists>e. check_for_cycles ns conns = Inl e
        \<and> reports_cycle (build_graph (map fst ns) conns (\<lambda>node_id. [])) e)
   \<or> (check_for_cycles ns conns = Inr () \<and> acyclic (conn_rel (map fst ns) conns))"
proof -
  let ?keys = "map fst ns"
  let ?g = "build_graph ?keys conns (\<lambda>node_id. [])"
  let ?V = "set ?keys \<union> snd ` conn_rel ?keys conns"
  let ?k = "Suc (length ?keys + length conns)"
  let ?s0 = "\<lparr>visited = {}, recursion_stack = {}, current_path = []\<rparr>"
  have rel: "graph_rel ?g = conn_rel ?keys conns"
    using build_graph_rel[of ?keys conns "\<lambda>node_id. []"] by (simp add: graph_rel_def)
  have fin: "finite ?V" using finite_conn_rel by simp
  have gV: "\<forall>x. set (?g x) \<subseteq> ?V"
  proof (intro allI subsetI)
    fix x y assume "y \<in> set (?g x)"
    then have "(x, y) \<in> conn_rel ?keys conns" using rel by (auto simp: graph_rel_def)
    then show "y \<in> ?V" by force
  qed
  have "card ?V \<le> card (set ?keys) + card (snd ` conn_rel ?keys conns)" by (rule card_Un_le)
  also have "\<dots> \<le> length ?keys + length conns"
    using card_length[of ?keys] card_conn_targets[of ?keys conns] by simp
  finally have k: "card ?V \<le> ?k" by simp
  have inv0: "dfs_inv ?g ?V ?s0" by (simp add: dfs_inv_def)
  from check_nodes_correct[OF fin gV k inv0, of ?keys]
  obtain r where r: "check_nodes ?k ?g ?keys ?s0 = Some r" "top_post ?g ?V ?s0 ?keys r" by auto
  show ?thesis
  proof (cases r)
    case (Inl e)
    with r have "check_for_cycles ns conns = Inl e" "reports_cycle ?g e"
      by (simp_all add: check_for_cycles_def Let_def top_post_def)
    then show ?thesis by blast
  next
    case (Inr s')
    with r(2) have s': "dfs_inv ?g ?V s'" "current_path s' = []" "set ?keys \<subseteq> visited s'"
      by (auto simp: top_post_def)
    have stack: "recursion_stack s' = {}" using dfs_invD(1)[OF s'(1)] s'(2) by simp
    have "\<And>n. (n, n) \<notin> (conn_rel ?keys conns)\<^sup>+"
    proof
      fix n assume c: "(n, n) \<in> (conn_rel ?keys conns)\<^sup>+"
      then obtain w where "(n, w) \<in> conn_rel ?keys conns" by (auto dest: tranclD)
      then have "n \<in> set ?keys" by (rule conn_rel_sources)
      then have "n \<in> visited s' - recursion_stack s'" using s'(3) stack by auto
      with dfs_invD(7)[OF s'(1)] have "(n, n) \<notin> (graph_rel ?g)\<^sup>+" by blast
      with c rel show False by simp
    qed
    then have "acyclic (conn_rel ?keys conns)" by (simp add: acyclic_def)
    moreover have "check_for_cycles ns conns = Inr ()"
      using r(1) Inr by (simp add: check_for_cycles_def Let_def)
    ultimately show ?thesis by blast
  qed
qed


section \<open>Cycles: planner and validator; validation never raises\<close>

lemma plan_loop_cyclic:
  assumes "C \<noteq> {}" and "\<forall>n \<in> C. \<exists>p \<in> C. (p, n) \<in> E"
  shows "C \<subseteq> set rem \<Longrightarrow> set rem \<inter> set (concat plan) = {}
     \<Longrightarrow> \<forall>n \<in> set rem. deps n = {s. (s, n) \<in> E} - set (concat plan)
     \<Longrightarrow> \<exists>rem'. plan_loop deps rem plan
            = Inl (WorkflowError (''Cyclic dependency detected among nodes: '' @ join '', '' rem'))
          \<and> C \<subseteq> set rem'"
proof (induction "length rem" arbitrary: deps rem plan rule: less_induct)
  case less
  define level where "level = filter (\<lambda>n. deps n = {}) rem"
  define rem' where "rem' = filter (\<lambda>n. deps n \<noteq> {}) rem"
  define deps' where "deps' = (\<lambda>n. if n \<in> set rem' then deps n - set level else deps n)"
  from assms(1) less.prems(1) have ne: "rem \<noteq> []" by auto
  have stay: "C \<subseteq> set rem'"
  proof
    fix n assume n: "n \<in> C"
    with assms(2) obtain p where p: "p \<in> C" "(p, n) \<in> E" by blast
    then have "p \<in> set rem" using less.prems(1) by auto
    then have "p \<notin> set (concat plan)" using less.prems(2) by auto
    moreover have "n \<in> set rem" using n less.prems(1) by auto
    ultimately have "p \<in> deps n" using less.prems(3) p(2) by auto
    then show "n \<in> set rem'" using \<open>n \<in> set rem\<close> by (auto simp: rem'_def)
  qed
  show ?case
  proof (cases "level = []")
    case True
    have "plan_loop deps rem plan
        = Inl (WorkflowError (''Cyclic dependency detected among nodes: '' @ join '', '' rem'))"
      unfolding rem'_def using ne True[unfolded level_def] by (rule plan_loop_stuck)
    with stay show ?thesis by blast
  next
    case False
    have step: "plan_loop deps rem plan = plan_loop deps' rem' (plan @ [level])"
      unfolding deps'_def rem'_def level_def
      using ne False[unfolded level_def] by (rule plan_loop_step)
    have shorter: "length rem' < length rem"
      unfolding rem'_def using False[unfolded level_def] by (rule filter_shrinks)
    have disj: "set rem' \<inter> set (concat (plan @ [level])) = {}"
      using less.prems(2) by (auto simp: rem'_def level_def)
    have deps: "\<forall>n \<in> set rem'. deps' n = {s. (s, n) \<in> E} - set (concat (plan @ [level]))"
    proof
      fix n assume n: "n \<in> set rem'"
      then have "n \<in> set rem" by (simp add: rem'_def)
      then have "deps n = {s. (s, n) \<in> E} - set (concat plan)" using less.prems(3) by simp
      then show "deps' n = {s. (s, n) \<in> E} - set (concat (plan @ [level]))"
        using n by (auto simp: deps'_def)
    qed
    from less.hyps[OF shorter stay disj deps] step show ?thesis by simp
  qed
qed

lemma on_cycle_pred:
  assumes "(n, n) \<in> E\<^sup>+"
  shows "\<exists>p. (p, p) \<in> E\<^sup>+ \<and> (p, n) \<in> E"
proof -
  from assms obtain p where p: "(n, p) \<in> E\<^sup>*" "(p, n) \<in> E" by (auto dest: tranclD2)
  then have "(p, p) \<in> E\<^sup>+" by (meson rtrancl_into_trancl2 p)
  with p show ?thesis by blast
qed

lemma planner_reports_cycle:
  assumes ok: "\<forall>e \<in> set (edges wd). source e \<noteq> [] \<and> target e \<noteq> [] \<and> target e \<in> node_id_set wd"
    and cyc: "(n, n) \<in> (edge_rel wd)\<^sup>+"
  shows "\<exists>rem. build_execution_plan wd
            = Inl (WorkflowError (''Cyclic dependency detected among nodes: '' @ join '', '' rem))
          \<and> {m. (m, m) \<in> (edge_rel wd)\<^sup>+} \<subseteq> set rem"
proof -
  let ?keys = "remdups (map fst (nodes wd))"
  let ?E = "dep_rel (edges wd)"
  let ?C = "{m. (m, m) \<in> (edge_rel wd)\<^sup>+}"
  let ?deps = "\<lambda>n. {} \<union> {s. (s, n) \<in> ?E}"
  have E: "?E = edge_rel wd" using ok by (auto simp: dep_rel_def edge_rel_def)
  have keys: "set ?keys = node_id_set wd" by (simp add: node_id_set_def)
  have add: "add_dependencies ?keys (edges wd) (\<lambda>n. {}) = Inr ?deps"
    using ok keys by (intro add_dependencies_ok) simp
  have bp: "build_execution_plan wd = plan_loop ?deps ?keys []"
    by (simp add: build_execution_plan_def add Let_def)
  have ne: "?C \<noteq> {}" using cyc by auto
  have pred: "\<forall>m \<in> ?C. \<exists>p \<in> ?C. (p, m) \<in> ?E"
    unfolding E using on_cycle_pred[of _ "edge_rel wd"] by auto
  have sub: "?C \<subseteq> set ?keys"
  proof
    fix m assume "m \<in> ?C"
    then obtain p where "(p, m) \<in> edge_rel wd" using on_cycle_pred[of m "edge_rel wd"] by auto
    then show "m \<in> set ?keys" using ok keys by (auto simp: edge_rel_def)
  qed
  from plan_loop_cyclic[OF ne pred sub, of "[]" ?deps] bp show ?thesis by simp
qed



text \<open>C6, amended: for every engine definition whose edges all have a non-empty source and
  a non-empty target that is a key of \<open>nodes\<close>, and whose edge relation contains a cycle,
  the planner produces no plan: it fails with a WorkflowError whose message lists the
  stranded nodes, among them every node that lies on a cycle. For every validator
  definition whose connections, as the cycle check reads them, contain a cycle, the
  depth-first check raises one WorkflowCycleError whose message renders a cycle of the
  graph (a walk along connections from a node back to itself).\<close>

theorem cycles_are_reported:
  "((\<forall>e \<in> set (edges wd). source e \<noteq> [] \<and> target e \<noteq> [] \<and> target e \<in> node_id_set wd)
      \<and> (n, n) \<in> (edge_rel wd)\<^sup>+
     \<longrightarrow> (\<exists>rem. build_execution_plan wd
              = Inl (WorkflowError (''Cyclic dependency detected among nodes: '' @ join '', '' rem))
            \<and> {m. (m, m) \<in> (edge_rel wd)\<^sup>+} \<subseteq> set rem))
   \<and> ((v, v) \<in> (conn_rel (map fst ns) conns)\<^sup>+
     \<longrightarrow> (\<exists>p. is_cycle (build_graph (map fst ns) conns (\<lambda>node_id. [])) p
            \<and> check_for_cycles ns conns
              = Inl (WorkflowCycleError (''Workflow contains a cycle: '' @ join '' -> '' p))))"
proof (intro conjI impI)
  assume "(\<forall>e \<in> set (edges wd). source e \<noteq> [] \<and> target e \<noteq> [] \<and> target e \<in> node_id_set wd)
      \<and> (n, n) \<in> (edge_rel wd)\<^sup>+"
  then show "\<exists>rem. build_execution_plan wd
              = Inl (WorkflowError (''Cyclic dependency detected among nodes: '' @ join '', '' rem))
            \<and> {m. (m, m) \<in> (edge_rel wd)\<^sup>+} \<subseteq> set rem"
    by (intro planner_reports_cycle) auto
next
  assume cyc: "(v, v) \<in> (conn_rel (map fst ns) conns)\<^sup>+"
  then have "\<not> acyclic (conn_rel (map fst ns) conns)" by (auto simp: acyclic_def)
  with check_for_cycles_result[of ns conns]
  obtain e where "check_for_cycles ns conns = Inl e"
    "reports_cycle (build_graph (map fst ns) conns (\<lambda>node_id. [])) e" by blast
  then show "\<exists>p. is_cycle (build_graph (map fst ns) conns (\<lambda>node_id. [])) p
            \<and> check_for_cycles ns conns
              = Inl (WorkflowCycleError (''Workflow contains a cycle: '' @ join '' -> '' p))"
    by (auto simp: reports_cycle_def)
qed

lemma two_cycle_plan:
  "build_execution_plan two_cycle
     = Inl (WorkflowError ''Cyclic dependency detected among nodes: a, b'')"
  by (simp add: build_execution_plan_def two_cycle_def ed_def plan_loop.simps Let_def)

lemma cyclic_conns_edges:
  "connection_edge [''a'', ''b''] \<lparr>conn_from = Some ''a.out'', conn_to = Some ''b.in''\<rparr> = Some (''a'', ''b'')"
  "connection_edge [''a'', ''b''] \<lparr>conn_from = Some ''b'', conn_to = Some ''a.in''\<rparr> = Some (''b'', ''a'')"
  by (simp_all add: connection_edge_def falsy_def str_opt_def has_dot_def before_dot_def Let_def)

lemma cyclic_conns_check:
  "check_for_cycles [(''a'', nd), (''b'', nd)] cyclic_conns
     = Inl (WorkflowCycleError ''Workflow contains a cycle: a -> b -> a'')"
  by (simp add: check_for_cycles_def cyclic_conns_def falsy_def str_opt_def has_dot_def
        before_dot_def Let_def cycle_error_def eval_nat_numeral)

theorem cycles_are_reported_witness:
  "build_execution_plan two_cycle
     = Inl (WorkflowError ''Cyclic dependency detected among nodes: a, b'')
   \<and> (\<exists>rem. build_execution_plan two_cycle
              = Inl (WorkflowError (''Cyclic dependency detected among nodes: '' @ join '', '' rem))
            \<and> {m. (m, m) \<in> (edge_rel two_cycle)\<^sup>+} \<subseteq> set rem)
   \<and> check_for_cycles [(''a'', nd), (''b'', nd)] cyclic_conns
        = Inl (WorkflowCycleError ''Workflow contains a cycle: a -> b -> a'')
   \<and> (\<exists>p. is_cycle (build_graph (map fst [(''a'', nd), (''b'', nd)]) cyclic_conns (\<lambda>node_id. [])) p
            \<and> check_for_cycles [(''a'', nd), (''b'', nd)] cyclic_conns
              = Inl (WorkflowCycleError (''Workflow contains a cycle: '' @ join '' -> '' p)))"
proof -
  have e: "(''a'', ''b'') \<in> edge_rel two_cycle" "(''b'', ''a'') \<in> edge_rel two_cycle"
    by (simp_all add: edge_rel_def two_cycle_def ed_def)
  then have c1: "(''a'', ''a'') \<in> (edge_rel two_cycle)\<^sup>+" by (meson trancl.intros)
  have h1: "(\<forall>e \<in> set (edges two_cycle). source e \<noteq> [] \<and> target e \<noteq> [] \<and> target e \<in> node_id_set two_cycle)
      \<and> (''a'', ''a'') \<in> (edge_rel two_cycle)\<^sup>+"
    using c1 by (simp add: two_cycle_def ed_def node_id_set_def)
  have "(''a'', ''b'') \<in> conn_rel (map fst [(''a'', nd), (''b'', nd)]) cyclic_conns"
    "(''b'', ''a'') \<in> conn_rel (map fst [(''a'', nd), (''b'', nd)]) cyclic_conns"
    using cyclic_conns_edges by (auto simp: conn_rel_def cyclic_conns_def)
  then have h2: "(''a'', ''a'') \<in> (conn_rel (map fst [(''a'', nd), (''b'', nd)]) cyclic_conns)\<^sup>+"
    by (meson trancl.intros)
  from cycles_are_reported [of two_cycle "''a''" "''a''" "[(''a'', nd), (''b'', nd)]" cyclic_conns] h1 h2
    two_cycle_plan cyclic_conns_check
  show ?thesis by blast
qed

text \<open>C6, as stated, fails for the planner when a node id is the empty string: the edges
  from \<open>''\<close> to \<open>a\<close> and back form a cycle, both are skipped by the guard
  \<open>if source and target\<close>, and the planner returns a plan.\<close>

theorem cycle_through_empty_id_counterexample:
  "('''', '''') \<in> (edge_rel empty_id_cycle)\<^sup>+
   \<and> build_execution_plan empty_id_cycle = Inr [['''', ''a'']]"
proof -
  have "('''', ''a'') \<in> edge_rel empty_id_cycle" "(''a'', '''') \<in> edge_rel empty_id_cycle"
    by (simp_all add: edge_rel_def empty_id_cycle_def ed_def)
  then have "('''', '''') \<in> (edge_rel empty_id_cycle)\<^sup>+" by (meson trancl.intros)
  moreover have "build_execution_plan empty_id_cycle = Inr [['''', ''a'']]"
    by (simp add: build_execution_plan_def empty_id_cycle_def ed_def plan_loop.simps Let_def)
  ultimately show ?thesis by simp
qed


section \<open>Status after a failed run; the execution semaphore\<close>

text \<open>C7, amended: when a run ends in failure, the \<open>finally\<close> block has removed the
  execution from \<open>active_executions\<close>, so \<open>get_execution_status(execution_id)\<close> returns
  None; the failure is observable through \<open>get_workflow_status(workflow_id)\<close>, which
  returns \<open>failed\<close>, and through the WorkflowError the run's task raises (the context's
  own status is \<open>failed\<close> as well).\<close>

theorem failed_run_status:
  "execute_workflow_internal eng context t_start t_end = (eng', context', events, Inl e)
   \<longrightarrow> get_execution_status eng' (execution_id context) = None
     \<and> get_workflow_status eng' (workflow_id context) = Some ''failed''
     \<and> status context' = ''failed''
     \<and> isinstance e [''WorkflowError'']"
  by (auto simp: execute_workflow_internal_def Let_def get_execution_status_def
        get_workflow_status_def handle_workflow_error_def isinstance_def WorkflowError_def
      split: prod.splits sum.splits option.splits if_splits)

lemma failing_plan: "build_execution_plan failing_workflow = Inr [[''x'']]"
  by (simp add: build_execution_plan_def failing_workflow_def plan_loop.simps Let_def)

lemma validate_failing: "validate_workflow_def failing_registry failing_workflow = None"
  by (simp add: validate_workflow_def_def failing_workflow_def failing_registry_def nd_def
        falsy_def str_opt_def has_node_type_def build_execution_plan_def plan_loop.simps Let_def)

lemma validate_other: "validate_workflow_def failing_registry other_workflow = None"
  by (simp add: validate_workflow_def_def other_workflow_def failing_registry_def nd_def
        falsy_def str_opt_def has_node_type_def build_execution_plan_def plan_loop.simps Let_def)

lemma failing_start:
  "execute_workflow one_permit_engine failing_workflow None ''fresh'' ''exec-1''
     = Some (Inr (started_engine, ''exec-1''))"
  using validate_failing
  by (simp add: execute_workflow_def register_workflow_def one_permit_engine_def
        WorkflowEngine_def started_engine_def started_context_def Let_def failing_workflow_def)

lemma other_start:
  "execute_workflow started_engine other_workflow None ''fresh'' ''exec-2''
     = Some (Inr (both_started_engine, ''exec-2''))"
  using validate_other
  by (simp add: execute_workflow_def register_workflow_def one_permit_engine_def
        WorkflowEngine_def started_engine_def both_started_engine_def second_context_def
        Let_def other_workflow_def fun_upd_twist)

lemma failing_required: "is_node_required failing_workflow ''x'' = Some True"
  by (simp add: is_node_required_def flag_required_def failing_workflow_def nd_def)

lemma failing_run:
  "execute_workflow_internal started_engine started_context 0 1
     = (started_engine\<lparr>workflow_status := [''wf-1'' \<mapsto> FAILED], active_executions := Map.empty\<rparr>,
        started_context\<lparr>start_time := Some 0, active_nodes := [''x'' \<mapsto> failing_instance],
           status := ''failed'', error := Some ''Required node x failed: boom'',
           end_time := Some 1, duration_seconds := 1\<rparr>,
        [Event ''workflow_start'' None None, Event ''node_start'' (Some ''x'') None,
         Event ''node_error'' (Some ''x'') (Some ''boom''),
         Event ''workflow_error'' None (Some ''Required node x failed: boom'')],
        Inl (WorkflowError ''Required node x failed: boom''))"
  using failing_plan failing_required
  by (simp add: execute_workflow_internal_def started_engine_def started_context_def
        ExecutionContext_def one_permit_engine_def WorkflowEngine_def failing_registry_def
        create_node_def execute_workflow_nodes_def execute_node_def prepare_node_input_def
        failing_instance_def handle_workflow_error_def isinstance_def WorkflowError_def
        falsy_def str_opt_def Let_def failing_workflow_def nd_def)

text \<open>C7, as stated, fails: an execution started with \<open>execute_workflow\<close> whose only node
  raises ends with status \<open>failed\<close>, and polling \<open>get_execution_status\<close> afterwards
  gives None, not a status dictionary.\<close>

theorem failed_run_status_counterexample:
  "execute_workflow one_permit_engine failing_workflow None ''fresh'' ''exec-1''
     = Some (Inr (started_engine, ''exec-1''))
   \<and> active_executions started_engine ''exec-1'' = Some started_context
   \<and> snd (snd (snd (execute_workflow_internal started_engine started_context 0 1)))
       = Inl (WorkflowError ''Required node x failed: boom'')
   \<and> status (fst (snd (execute_workflow_internal started_engine started_context 0 1))) = ''failed''
   \<and> get_execution_status (fst (execute_workflow_internal started_engine started_context 0 1))
        ''exec-1'' = None"
proof -
  have "active_executions started_engine ''exec-1'' = Some started_context"
    by (simp add: started_engine_def)
  then show ?thesis
    unfolding failing_run using failing_start by (simp add: get_execution_status_def)
qed

theorem failed_run_status_witness:
  "get_execution_status (fst (execute_workflow_internal started_engine started_context 0 1))
        (execution_id started_context) = None
   \<and> get_workflow_status (fst (execute_workflow_internal started_engine started_context 0 1))
        (workflow_id started_context) = Some ''failed''"
  using failed_run_status [of started_engine started_context 0 1
      "started_engine\<lparr>workflow_status := [''wf-1'' \<mapsto> FAILED], active_executions := Map.empty\<rparr>"
      "started_context\<lparr>start_time := Some 0, active_nodes := [''x'' \<mapsto> failing_instance],
           status := ''failed'', error := Some ''Required node x failed: boom'',
           end_time := Some 1, duration_seconds := 1\<rparr>"
      "[Event ''workflow_start'' None None, Event ''node_start'' (Some ''x'') None,
         Event ''node_error'' (Some ''x'') (Some ''boom''),
         Event ''workflow_error'' None (Some ''Required node x failed: boom'')]"
      "WorkflowError ''Required node x failed: boom''"]
  unfolding failing_run
  by (simp add: started_context_def ExecutionContext_def)

text \<open>C5 is not what the code does. With \<open>max_concurrent_workflows = 1\<close>, two calls of
  \<open>execute_workflow\<close> one after the other both go through: each takes the permit,
  schedules its run with \<open>create_task\<close> and gives the permit back on leaving the
  \<open>async with\<close> block, before the run has started. Afterwards both runs are scheduled,
  both contexts are still in state \<open>created\<close>, and the semaphore holds its one permit
  again, so nothing keeps the second run from starting while the first is running.\<close>

theorem semaphore_does_not_bound_runs:
  "max_concurrent_workflows one_permit_engine = 1
   \<and> execute_workflow one_permit_engine failing_workflow None ''fresh'' ''exec-1''
       = Some (Inr (started_engine, ''exec-1''))
   \<and> execute_workflow started_engine other_workflow None ''fresh'' ''exec-2''
       = Some (Inr (both_started_engine, ''exec-2''))
   \<and> tasks both_started_engine = [''exec-1'', ''exec-2'']
   \<and> execution_semaphore both_started_engine = 1
   \<and> map_option status (active_executions both_started_engine ''exec-1'') = Some ''created''
   \<and> map_option status (active_executions both_started_engine ''exec-2'') = Some ''created''"
  using failing_start other_start
  by (simp add: both_started_engine_def one_permit_engine_def WorkflowEngine_def
        started_context_def second_context_def ExecutionContext_def)

section \<open>Required nodes and the failure policy\<close>

lemma required_loop_result:
  assumes "\<forall>e \<in> set es. source e = n \<longrightarrow> rec (target e) = Some (R (target e))"
  shows "required_loop rec n es = Some (\<exists>e \<in> set es. source e = n \<and> R (target e))"
  using assms by (induction es) (auto split: bool.splits)

lemma finite_edge_rel: "finite (edge_rel wd)"
  by (simp add: edge_rel_def)

lemma finite_reach: "finite ((edge_rel wd)\<^sup>+ `` {n})"
proof -
  have "(edge_rel wd)\<^sup>+ `` {n} \<subseteq> snd ` edge_rel wd"
  proof
    fix x assume "x \<in> (edge_rel wd)\<^sup>+ `` {n}"
    then have "(n, x) \<in> (edge_rel wd)\<^sup>+" by simp
    then obtain z where "(z, x) \<in> edge_rel wd" by (auto dest: tranclD2)
    then show "x \<in> snd ` edge_rel wd" by force
  qed
  moreover have "finite (snd ` edge_rel wd)" using finite_edge_rel by simp
  ultimately show ?thesis by (rule finite_subset)
qed

lemma card_reach_le: "card ((edge_rel wd)\<^sup>+ `` {n}) \<le> length (edges wd)"
proof -
  have sub: "(edge_rel wd)\<^sup>+ `` {n} \<subseteq> (\<lambda>e. target e) ` set (edges wd)"
  proof
    fix x assume "x \<in> (edge_rel wd)\<^sup>+ `` {n}"
    then have "(n, x) \<in> (edge_rel wd)\<^sup>+" by simp
    then obtain z where "(z, x) \<in> edge_rel wd" by (auto dest: tranclD2)
    then show "x \<in> (\<lambda>e. target e) ` set (edges wd)" by (auto simp: edge_rel_def)
  qed
  have "card ((edge_rel wd)\<^sup>+ `` {n}) \<le> card ((\<lambda>e. target e) ` set (edges wd))"
    using sub by (intro card_mono) auto
  also have "\<dots> \<le> card (set (edges wd))" by (rule card_image_le) simp
  also have "\<dots> \<le> length (edges wd)" by (rule card_length)
  finally show ?thesis .
qed

lemma card_reach_less:
  assumes "acyclic (edge_rel wd)" "(n, t) \<in> edge_rel wd"
  shows "card ((edge_rel wd)\<^sup>+ `` {t}) < card ((edge_rel wd)\<^sup>+ `` {n})"
proof (rule psubset_card_mono)
  show "finite ((edge_rel wd)\<^sup>+ `` {n})" by (rule finite_reach)
  have "t \<in> (edge_rel wd)\<^sup>+ `` {n}" using assms(2) by auto
  moreover have "t \<notin> (edge_rel wd)\<^sup>+ `` {t}" using assms(1) by (auto simp: acyclic_def)
  moreover have "(edge_rel wd)\<^sup>+ `` {t} \<subseteq> (edge_rel wd)\<^sup>+ `` {n}"
    using assms(2) by (auto intro: trancl_into_trancl2)
  ultimately show "(edge_rel wd)\<^sup>+ `` {t} \<subset> (edge_rel wd)\<^sup>+ `` {n}" by blast
qed

lemma reaches_marked_unfold:
  "reaches_marked wd n \<longleftrightarrow>
     marked wd n \<or> (\<exists>e \<in> set (edges wd). source e = n \<and> reaches_marked wd (target e))"
proof
  assume "reaches_marked wd n"
  then obtain m where m: "(n, m) \<in> (edge_rel wd)\<^sup>*" "marked wd m"
    by (auto simp: reaches_marked_def)
  from m(1) show "marked wd n \<or> (\<exists>e \<in> set (edges wd). source e = n \<and> reaches_marked wd (target e))"
  proof (cases rule: converse_rtranclE)
    case base
    with m(2) show ?thesis by simp
  next
    case (step t)
    then obtain e where "e \<in> set (edges wd)" "source e = n" "target e = t"
      by (auto simp: edge_rel_def)
    moreover have "reaches_marked wd t" using step(2) m(2) by (auto simp: reaches_marked_def)
    ultimately show ?thesis by blast
  qed
next
  assume "marked wd n \<or> (\<exists>e \<in> set (edges wd). source e = n \<and> reaches_marked wd (target e))"
  then show "reaches_marked wd n"
  proof
    assume "marked wd n"
    then show ?thesis by (auto simp: reaches_marked_def)
  next
    assume "\<exists>e \<in> set (edges wd). source e = n \<and> reaches_marked wd (target e)"
    then obtain e m where e: "e \<in> set (edges wd)" "source e = n"
      "(target e, m) \<in> (edge_rel wd)\<^sup>*" "marked wd m"
      by (auto simp: reaches_marked_def)
    then have "(n, target e) \<in> edge_rel wd" by (auto simp: edge_rel_def)
    with e(3) have "(n, m) \<in> (edge_rel wd)\<^sup>*" by (meson converse_rtrancl_into_rtrancl)
    with e(4) show ?thesis by (auto simp: reaches_marked_def)
  qed
qed

lemma is_node_required_depth_correct:
  assumes acy: "acyclic (edge_rel wd)"
  shows "card ((edge_rel wd)\<^sup>+ `` {n}) < k
     \<Longrightarrow> is_node_required_depth k wd n = Some (reaches_marked wd n)"
proof (induction k arbitrary: n)
  case 0
  then show ?case by simp
next
  case (Suc k)
  show ?case
  proof (cases "marked wd n")
    case True
    then have "reaches_marked wd n" by (simp add: reaches_marked_unfold[of wd n])
    with True show ?thesis by (auto simp: marked_def)
  next
    case False
    have rec: "\<forall>e \<in> set (edges wd). source e = n
        \<longrightarrow> is_node_required_depth k wd (target e) = Some (reaches_marked wd (target e))"
    proof (intro ballI impI)
      fix e assume e: "e \<in> set (edges wd)" "source e = n"
      then have "(n, target e) \<in> edge_rel wd" by (auto simp: edge_rel_def)
      from card_reach_less[OF acy this] Suc.prems
      have "card ((edge_rel wd)\<^sup>+ `` {target e}) < k" by simp
      then show "is_node_required_depth k wd (target e) = Some (reaches_marked wd (target e))"
        by (rule Suc.IH)
    qed
    have "is_node_required_depth (Suc k) wd n
        = required_loop (is_node_required_depth k wd) n (edges wd)"
      using False by (simp add: marked_def)
    also have "\<dots> = Some (\<exists>e \<in> set (edges wd). source e = n \<and> reaches_marked wd (target e))"
      using rec by (rule required_loop_result)
    also have "\<dots> = Some (reaches_marked wd n)"
      using False by (simp add: reaches_marked_unfold[of wd n])
    finally show ?thesis .
  qed
qed

lemma is_node_required_correct:
  assumes "acyclic (edge_rel wd)"
  shows "is_node_required wd n = Some (reaches_marked wd n)"
  unfolding is_node_required_def
  using assms card_reach_le[of wd n] by (intro is_node_required_depth_correct) auto

lemma reaches_marked_literal:
  "reaches_marked wd n \<longleftrightarrow>
     flag_required wd n \<or> output_references wd n
     \<or> (\<exists>m. (n, m) \<in> (edge_rel wd)\<^sup>+ \<and> reaches_marked wd m)"
proof
  assume "reaches_marked wd n"
  then obtain m where m: "(n, m) \<in> (edge_rel wd)\<^sup>*" "marked wd m"
    by (auto simp: reaches_marked_def)
  have rm: "reaches_marked wd m" using m(2) by (auto simp: reaches_marked_def)
  from m(1) have "n = m \<or> (n, m) \<in> (edge_rel wd)\<^sup>+" by (auto simp: rtrancl_eq_or_trancl)
  with m(2) rm show "flag_required wd n \<or> output_references wd n
     \<or> (\<exists>m. (n, m) \<in> (edge_rel wd)\<^sup>+ \<and> reaches_marked wd m)"
    by (auto simp: marked_def)
next
  assume h: "flag_required wd n \<or> output_references wd n
     \<or> (\<exists>m. (n, m) \<in> (edge_rel wd)\<^sup>+ \<and> reaches_marked wd m)"
  show "reaches_marked wd n"
  proof (cases "marked wd n")
    case True then show ?thesis by (auto simp: reaches_marked_def)
  next
    case False
    with h obtain m m' where "(n, m) \<in> (edge_rel wd)\<^sup>+" "(m, m') \<in> (edge_rel wd)\<^sup>*" "marked wd m'"
      by (auto simp: marked_def reaches_marked_def)
    then have "(n, m') \<in> (edge_rel wd)\<^sup>*" by (meson trancl_into_rtrancl rtrancl_trans)
    with \<open>marked wd m'\<close> show ?thesis by (auto simp: reaches_marked_def)
  qed
qed

lemma level_tasks_active:
  "\<forall>n \<in> set ids. active_nodes c n \<noteq> None \<Longrightarrow> level_tasks c ids = map (node_task c) ids"
  by (induction ids) (auto simp: node_task_def)

lemma zip_outcomes: "zip ids (map snd (map f ids)) = map (\<lambda>n. (n, snd (f n))) ids"
  by (induction ids) auto

lemma node_task_events:
  assumes "active_nodes c n \<noteq> None"
  shows "node_start_event n \<in> set (fst (node_task c n))"
    and "\<And>t m x. Event t (Some m) x \<in> set (fst (node_task c n)) \<Longrightarrow> m = n"
    and "\<And>m msg. node_error_event m msg \<in> set (fst (node_task c n))
           \<longleftrightarrow> m = n \<and> (\<exists>e. snd (node_task c n) = Inl e \<and> exn_str e = msg)"
  using assms
  by (auto simp: node_task_def execute_node_def node_start_event_def node_error_event_def
      split: option.splits sum.splits)

lemma level_events:
  assumes "\<forall>n \<in> set ids. active_nodes c n \<noteq> None"
  shows "\<And>n. n \<in> set ids \<Longrightarrow> node_start_event n \<in> set (concat (map fst (map (node_task c) ids)))"
    and "\<And>t m x. Event t (Some m) x \<in> set (concat (map fst (map (node_task c) ids))) \<Longrightarrow> m \<in> set ids"
    and "\<And>m msg. node_error_event m msg \<in> set (concat (map fst (map (node_task c) ids)))
           \<longleftrightarrow> m \<in> set ids \<and> (\<exists>e. snd (node_task c m) = Inl e \<and> exn_str e = msg)"
proof -
  show "\<And>n. n \<in> set ids \<Longrightarrow> node_start_event n \<in> set (concat (map fst (map (node_task c) ids)))"
    using assms node_task_events(1) by fastforce
  show "\<And>t m x. Event t (Some m) x \<in> set (concat (map fst (map (node_task c) ids))) \<Longrightarrow> m \<in> set ids"
    using assms node_task_events(2) by fastforce
  show "\<And>m msg. node_error_event m msg \<in> set (concat (map fst (map (node_task c) ids)))
           \<longleftrightarrow> m \<in> set ids \<and> (\<exists>e. snd (node_task c m) = Inl e \<and> exn_str e = msg)"
  proof -
    fix m msg
    have "node_error_event m msg \<in> set (concat (map fst (map (node_task c) ids)))
        \<longleftrightarrow> (\<exists>n \<in> set ids. node_error_event m msg \<in> set (fst (node_task c n)))"
      by auto
    also have "\<dots> \<longleftrightarrow> (\<exists>n \<in> set ids. m = n \<and> (\<exists>e. snd (node_task c n) = Inl e \<and> exn_str e = msg))"
      using assms node_task_events(3) by blast
    finally show "node_error_event m msg \<in> set (concat (map fst (map (node_task c) ids)))
           \<longleftrightarrow> m \<in> set ids \<and> (\<exists>e. snd (node_task c m) = Inl e \<and> exn_str e = msg)"
      by blast
  qed
qed

lemma process_results_raised:
  assumes "\<forall>n. is_node_required wd n = Some (req n)"
  shows "snd (process_results wd (map (\<lambda>n. (n, out n)) ids) results) = None
       \<longleftrightarrow> (\<forall>n \<in> set ids. \<forall>e. out n = Inl e \<longrightarrow> \<not> req n)"
    and "\<And>x. snd (process_results wd (map (\<lambda>n. (n, out n)) ids) results) = Some x
       \<Longrightarrow> \<exists>m. x = WorkflowError m"
proof -
  show "snd (process_results wd (map (\<lambda>n. (n, out n)) ids) results) = None
       \<longleftrightarrow> (\<forall>n \<in> set ids. \<forall>e. out n = Inl e \<longrightarrow> \<not> req n)"
  proof (induction ids arbitrary: results)
    case Nil then show ?case by simp
  next
    case (Cons n ids)
    show ?case
    proof (cases "out n")
      case (Inl e)
      then show ?thesis using assms Cons.IH by (cases "req n") auto
    next
      case (Inr v)
      then show ?thesis using Cons.IH by auto
    qed
  qed
  show "\<And>x. snd (process_results wd (map (\<lambda>n. (n, out n)) ids) results) = Some x
       \<Longrightarrow> \<exists>m. x = WorkflowError m"
  proof (induction ids arbitrary: results)
    case Nil then show ?case by simp
  next
    case (Cons n ids)
    show ?case
    proof (cases "out n")
      case (Inl e)
      then show ?thesis using assms Cons by (cases "req n") auto
    next
      case (Inr v)
      then show ?thesis using Cons by auto
    qed
  qed
qed

lemma process_results_stored:
  assumes "\<forall>n. is_node_required wd n = Some (req n)"
  shows "snd (process_results wd (map (\<lambda>n. (n, out n)) ids) results) = None \<Longrightarrow> distinct ids
     \<Longrightarrow> fst (process_results wd (map (\<lambda>n. (n, out n)) ids) results) m
         = (if m \<in> set ids
            then Some (case out m of Inl e \<Rightarrow> failed_entry e | Inr v \<Rightarrow> v)
            else results m)"
proof (induction ids arbitrary: results)
  case Nil then show ?case by simp
next
  case (Cons n ids)
  define entry where "entry = (case out n of Inl e \<Rightarrow> failed_entry e | Inr v \<Rightarrow> v)"
  have not_req: "\<And>e. out n = Inl e \<Longrightarrow> \<not> req n"
    using Cons.prems(1) assms by (cases "req n") auto
  have step: "process_results wd (map (\<lambda>n. (n, out n)) (n # ids)) results
      = process_results wd (map (\<lambda>n. (n, out n)) ids) (results(n \<mapsto> entry))"
    using not_req assms by (cases "out n") (auto simp: entry_def)
  have none: "snd (process_results wd (map (\<lambda>n. (n, out n)) ids) (results(n \<mapsto> entry))) = None"
    using Cons.prems(1) unfolding step .
  have ih: "fst (process_results wd (map (\<lambda>n. (n, out n)) ids) (results(n \<mapsto> entry))) m
         = (if m \<in> set ids
            then Some (case out m of Inl e \<Rightarrow> failed_entry e | Inr v \<Rightarrow> v)
            else (results(n \<mapsto> entry)) m)"
  proof -
    have d: "distinct ids" using Cons.prems(2) by simp
    show ?thesis using none d by (rule Cons.IH)
  qed
  show ?case
    unfolding step ih using Cons.prems(2) by (cases "m = n") (auto simp: entry_def)
qed

lemma process_results_elsewhere:
  "m \<notin> set ids \<Longrightarrow> fst (process_results wd (map (\<lambda>n. (n, out n)) ids) results) m = results m"
proof (induction ids arbitrary: results)
  case Nil then show ?case by simp
next
  case (Cons n ids)
  then show ?case
    by (cases "out n"; cases "is_node_required wd n") (auto split: bool.splits)
qed

lemma ordered_in_Cons:
  "ordered_in (ids # rest) n m \<longleftrightarrow> (n \<in> set ids \<and> m \<in> set (concat rest)) \<or> ordered_in rest n m"
proof
  assume "ordered_in (ids # rest) n m"
  then obtain i j where ij: "j < length (ids # rest)" "i < j" "n \<in> set ((ids # rest) ! i)"
      "m \<in> set ((ids # rest) ! j)"
    unfolding ordered_in_def by blast
  then obtain j' where j': "j = Suc j'" by (cases j) auto
  with ij have mj: "m \<in> set (rest ! j')" "j' < length rest" by auto
  then have "rest ! j' \<in> set rest" by simp
  with mj have mc: "m \<in> set (concat rest)" by auto
  show "(n \<in> set ids \<and> m \<in> set (concat rest)) \<or> ordered_in rest n m"
  proof (cases i)
    case 0
    with ij mc show ?thesis by simp
  next
    case (Suc i')
    with ij j' mj have "j' < length rest \<and> i' < j' \<and> n \<in> set (rest ! i') \<and> m \<in> set (rest ! j')"
      by auto
    then have "ordered_in rest n m" unfolding ordered_in_def by blast
    then show ?thesis by simp
  qed
next
  assume h: "(n \<in> set ids \<and> m \<in> set (concat rest)) \<or> ordered_in rest n m"
  show "ordered_in (ids # rest) n m"
  proof (cases "ordered_in rest n m")
    case True
    then obtain i j where "j < length rest" "i < j" "n \<in> set (rest ! i)" "m \<in> set (rest ! j)"
      unfolding ordered_in_def by blast
    then have "Suc j < length (ids # rest) \<and> Suc i < Suc j
        \<and> n \<in> set ((ids # rest) ! Suc i) \<and> m \<in> set ((ids # rest) ! Suc j)" by simp
    then show ?thesis unfolding ordered_in_def by blast
  next
    case False
    with h have n: "n \<in> set ids" and "m \<in> set (concat rest)" by auto
    then obtain l where "l \<in> set rest" "m \<in> set l" by auto
    then obtain j where "j < length rest" "m \<in> set (rest ! j)" by (metis in_set_conv_nth)
    with n have "Suc j < length (ids # rest) \<and> 0 < Suc j
        \<and> n \<in> set ((ids # rest) ! 0) \<and> m \<in> set ((ids # rest) ! Suc j)" by simp
    then show ?thesis unfolding ordered_in_def by blast
  qed
qed

lemma ordered_in_concat:
  assumes "ordered_in levels n m"
  shows "n \<in> set (concat levels)" "m \<in> set (concat levels)"
proof -
  from assms obtain i j where ij: "j < length levels" "i < j" "n \<in> set (levels ! i)"
      "m \<in> set (levels ! j)"
    unfolding ordered_in_def by blast
  then have "levels ! i \<in> set levels" "levels ! j \<in> set levels" by simp_all
  with ij show "n \<in> set (concat levels)" "m \<in> set (concat levels)" by auto
qed

lemma run_levels_unfold:
  assumes "\<forall>n \<in> set ids. active_nodes c n \<noteq> None"
  shows "snd (level_results c ids) = Some e
      \<Longrightarrow> run_levels (ids # rest) c
         = (c\<lparr>node_results := fst (level_results c ids)\<rparr>, level_events c ids, Some e)"
    and "snd (level_results c ids) = None
      \<Longrightarrow> run_levels (ids # rest) c
         = (case run_levels rest (c\<lparr>node_results := fst (level_results c ids)\<rparr>) of
              (c'', evs, r) \<Rightarrow> (c'', level_events c ids @ evs, r))"
proof -
  have lt: "level_tasks c ids = map (node_task c) ids"
    using assms by (rule level_tasks_active)
  have z: "zip ids (map snd (level_tasks c ids)) = map (\<lambda>n. (n, snd (node_task c n))) ids"
    unfolding lt by (rule zip_outcomes)
  have ev: "concat (map fst (level_tasks c ids)) = level_events c ids"
    unfolding lt level_events_def ..
  have pr: "process_results (workflow_def c) (zip ids (map snd (level_tasks c ids))) (node_results c)
      = level_results c ids"
    unfolding z level_results_def ..
  show "snd (level_results c ids) = Some e
      \<Longrightarrow> run_levels (ids # rest) c
         = (c\<lparr>node_results := fst (level_results c ids)\<rparr>, level_events c ids, Some e)"
    by (simp add: Let_def pr ev case_prod_unfold)
  show "snd (level_results c ids) = None
      \<Longrightarrow> run_levels (ids # rest) c
         = (case run_levels rest (c\<lparr>node_results := fst (level_results c ids)\<rparr>) of
              (c'', evs, r) \<Rightarrow> (c'', level_events c ids @ evs, r))"
    by (simp add: Let_def pr ev case_prod_unfold)
qed

lemma run_levels_spec:
  assumes req: "\<forall>n. is_node_required wd n = Some (req n)"
  shows "workflow_def c = wd \<Longrightarrow> \<forall>n \<in> set (concat levels). active_nodes c n \<noteq> None
     \<Longrightarrow> distinct (concat levels) \<Longrightarrow> run_spec req levels c (run_levels levels c)"
proof (induction levels arbitrary: c)
  case Nil
  then show ?case by (simp add: run_spec_def ordered_in_def)
next
  case (Cons ids rest)
  define pr where "pr = level_results c ids"
  define lev where "lev = level_events c ids"
  define c1 where "c1 = c\<lparr>node_results := fst pr\<rparr>"
  let ?out = "\<lambda>n. snd (node_task c n)"
  have act: "\<forall>n \<in> set ids. active_nodes c n \<noteq> None" using Cons.prems(2) by simp
  have dist: "distinct ids" "distinct (concat rest)" "set ids \<inter> set (concat rest) = {}"
    using Cons.prems(3) by auto
  have pr_eq: "pr = process_results wd (map (\<lambda>n. (n, ?out n)) ids) (node_results c)"
    by (simp add: pr_def level_results_def Cons.prems(1))
  have le1: "\<And>n. n \<in> set ids \<Longrightarrow> node_start_event n \<in> set lev"
    unfolding lev_def level_events_def using act by (rule level_events(1))
  have le2: "\<And>t m x. Event t (Some m) x \<in> set lev \<Longrightarrow> m \<in> set ids"
    unfolding lev_def level_events_def using act by (rule level_events(2))
  have le3: "\<And>m msg. node_error_event m msg \<in> set lev
       \<longleftrightarrow> m \<in> set ids \<and> (\<exists>e. ?out m = Inl e \<and> exn_str e = msg)"
    unfolding lev_def level_events_def using act by (rule level_events(3))
  have pr1: "snd pr = None \<longleftrightarrow> (\<forall>n \<in> set ids. \<forall>e. ?out n = Inl e \<longrightarrow> \<not> req n)"
    unfolding pr_eq using req by (rule process_results_raised(1))
  have pr2: "\<And>x. snd pr = Some x \<Longrightarrow> \<exists>m. x = WorkflowError m"
    unfolding pr_eq using req by (rule process_results_raised(2))
  have pr4: "\<And>m. m \<notin> set ids \<Longrightarrow> fst pr m = node_results c m"
    unfolding pr_eq by (rule process_results_elsewhere)
  have lev_nonreq: "snd pr = None \<Longrightarrow> node_error_event n msg \<in> set lev \<Longrightarrow> \<not> req n" for n msg
    using pr1 le3 by blast
  have start_not_lev: "m \<in> set (concat rest) \<Longrightarrow> node_start_event m \<notin> set lev" for m
    using le2[of "''node_start''" m None] dist(3) by (auto simp: node_start_event_def)
  have err_not_lev: "n \<in> set (concat rest) \<Longrightarrow> node_error_event n msg \<notin> set lev" for n msg
    using le3 dist(3) by auto
  show ?case
  proof (cases "snd pr")
    case (Some x)
    have run: "run_levels (ids # rest) c = (c1, lev, Some x)"
      using run_levels_unfold(1)[OF act, of x rest] Some by (simp add: pr_def lev_def c1_def)
    from Some pr1 obtain n e where ne: "n \<in> set ids" "?out n = Inl e" "req n" by auto
    then have bad: "node_error_event n (exn_str e) \<in> set lev" using le3 by blast
    have halt: "\<forall>n msg m. node_error_event n msg \<in> set lev \<and> req n \<and> ordered_in (ids # rest) n m
            \<longrightarrow> node_start_event m \<notin> set lev"
    proof (intro allI impI)
      fix n msg m
      assume "node_error_event n msg \<in> set lev \<and> req n \<and> ordered_in (ids # rest) n m"
      then have "m \<in> set (concat rest)"
        using ordered_in_concat(2)[of rest n m] by (auto simp: ordered_in_Cons)
      then show "node_start_event m \<notin> set lev" by (rule start_not_lev)
    qed
    show ?thesis
      unfolding run run_spec_def
      using bad ne(3) pr2[OF Some] le2 pr4 halt by (auto simp: c1_def)
  next
    case None
    obtain c2 evs r where rest_run: "run_levels rest c1 = (c2, evs, r)"
      by (cases "run_levels rest c1") auto
    have run: "run_levels (ids # rest) c = (c2, lev @ evs, r)"
      using run_levels_unfold(2)[OF act, of rest] None rest_run
      by (simp add: pr_def lev_def c1_def)
    have "run_spec req rest c1 (run_levels rest c1)"
      using Cons.prems(1,2) dist(2) by (intro Cons.IH) (simp_all add: c1_def)
    then have ih: "active_nodes c2 = active_nodes c1" "workflow_def c2 = workflow_def c1"
      "\<And>t m x. Event t (Some m) x \<in> set evs \<Longrightarrow> m \<in> set (concat rest)"
      "r = None \<longleftrightarrow> (\<forall>n msg. node_error_event n msg \<in> set evs \<longrightarrow> \<not> req n)"
      "\<And>x. r = Some x \<Longrightarrow> \<exists>m. x = WorkflowError m"
      "r = None \<Longrightarrow> \<forall>n \<in> set (concat rest). node_start_event n \<in> set evs"
      "\<And>n msg. r = None \<Longrightarrow> node_error_event n msg \<in> set evs \<Longrightarrow>
          node_results c2 n = Some (PDict [(''error'', PStr msg), (''status'', PStr ''failed'')])"
      "\<And>n msg m. node_error_event n msg \<in> set evs \<Longrightarrow> req n \<Longrightarrow> ordered_in rest n m
          \<Longrightarrow> node_start_event m \<notin> set evs"
      "\<And>m. m \<notin> set (concat rest) \<Longrightarrow> node_results c2 m = node_results c1 m"
      unfolding rest_run run_spec_def by auto
    have p0: "active_nodes c2 = active_nodes c \<and> workflow_def c2 = workflow_def c"
      using ih(1,2) by (simp add: c1_def)
    have p1: "\<forall>t m x. Event t (Some m) x \<in> set (lev @ evs) \<longrightarrow> m \<in> set (concat (ids # rest))"
      using le2 ih(3) by auto
    have p2: "r = None \<longleftrightarrow> (\<forall>n msg. node_error_event n msg \<in> set (lev @ evs) \<longrightarrow> \<not> req n)"
      using ih(4) lev_nonreq[OF None] by auto
    have p3: "\<forall>x. r = Some x \<longrightarrow> (\<exists>m. x = WorkflowError m)" using ih(5) by blast
    have p4: "r = None \<longrightarrow> (\<forall>n \<in> set (concat (ids # rest)). node_start_event n \<in> set (lev @ evs))"
      using le1 ih(6) by auto
    have p5: "r = None \<longrightarrow> (\<forall>n msg. node_error_event n msg \<in> set (lev @ evs) \<longrightarrow>
          node_results c2 n = Some (PDict [(''error'', PStr msg), (''status'', PStr ''failed'')]))"
    proof (intro impI allI)
      fix n msg assume r: "r = None" and ev: "node_error_event n msg \<in> set (lev @ evs)"
      show "node_results c2 n = Some (PDict [(''error'', PStr msg), (''status'', PStr ''failed'')])"
      proof (cases "node_error_event n msg \<in> set lev")
        case True
        then obtain e where e: "n \<in> set ids" "?out n = Inl e" "exn_str e = msg" using le3 by blast
        have "fst pr n = Some (case ?out n of Inl e \<Rightarrow> failed_entry e | Inr v \<Rightarrow> v)"
          using process_results_stored[OF req, of "?out" ids "node_results c" n] None dist(1) e(1)
          unfolding pr_eq by simp
        then have "node_results c1 n = Some (failed_entry e)" using e(2) by (simp add: c1_def)
        moreover have "n \<notin> set (concat rest)" using e(1) dist(3) by auto
        ultimately show ?thesis using ih(9) e(3) by (simp add: failed_entry_def)
      next
        case False
        with ev have "node_error_event n msg \<in> set evs" by simp
        with r show ?thesis by (rule ih(7))
      qed
    qed
    have p6: "\<forall>n msg m. node_error_event n msg \<in> set (lev @ evs) \<and> req n \<and> ordered_in (ids # rest) n m
            \<longrightarrow> node_start_event m \<notin> set (lev @ evs)"
    proof (intro allI impI)
      fix n msg m
      assume h: "node_error_event n msg \<in> set (lev @ evs) \<and> req n \<and> ordered_in (ids # rest) n m"
      then have notlev: "node_error_event n msg \<notin> set lev" using lev_nonreq[OF None] by blast
      with h have inevs: "node_error_event n msg \<in> set evs" by simp
      then have nrest: "n \<in> set (concat rest)"
        using ih(3)[of "''node_error''" n "Some msg"] by (simp add: node_error_event_def)
      then have "n \<notin> set ids" using dist(3) by auto
      with h have ord: "ordered_in rest n m" by (simp add: ordered_in_Cons)
      then have "m \<in> set (concat rest)" by (rule ordered_in_concat(2))
      then have "node_start_event m \<notin> set lev" by (rule start_not_lev)
      moreover have "node_start_event m \<notin> set evs" using inevs h ord by (intro ih(8)) auto
      ultimately show "node_start_event m \<notin> set (lev @ evs)" by simp
    qed
    have p7: "\<forall>m. m \<notin> set (concat (ids # rest)) \<longrightarrow> node_results c2 m = node_results c m"
      using ih(9) pr4 by (simp add: c1_def)
    show ?thesis
      unfolding run run_spec_def prod.case
      using p0 p1 p2 p3 p4 p5 p6 p7 by blast
  qed
qed

lemma initialize_workflow_nodes_ok:
  "initialize_workflow_nodes reg ns c = (c', None)
   \<Longrightarrow> workflow_def c' = workflow_def c \<and> workflow_id c' = workflow_id c
       \<and> execution_id c' = execution_id c
       \<and> (\<forall>n. n \<in> fst ` set ns \<or> active_nodes c n \<noteq> None \<longrightarrow> active_nodes c' n \<noteq> None)"
proof (induction ns arbitrary: c)
  case Nil
  then show ?case by simp
next
  case (Cons p ns)
  obtain node_id nd where p: "p = (node_id, nd)" by (cases p)
  from Cons.prems p obtain inst where
    step: "initialize_workflow_nodes reg ns
             (c\<lparr>active_nodes := (active_nodes c)(node_id \<mapsto> inst)\<rparr>) = (c', None)"
    by (auto split: if_splits sum.splits option.splits)
  from Cons.IH[OF step] show ?case by (auto simp: p)
qed

lemma initialize_workflow_nodes_fail:
  "initialize_workflow_nodes reg ns c = (c', Some e)
   \<Longrightarrow> workflow_def c' = workflow_def c \<and> workflow_id c' = workflow_id c"
proof (induction ns arbitrary: c)
  case Nil
  then show ?case by simp
next
  case (Cons p ns)
  obtain node_id nd where p: "p = (node_id, nd)" by (cases p)
  from Cons.prems p Cons.IH show ?case
    by (fastforce split: if_splits sum.splits option.splits)
qed

lemma plan_loop_partition:
  "distinct rem \<Longrightarrow> distinct (concat plan) \<Longrightarrow> set rem \<inter> set (concat plan) = {}
   \<Longrightarrow> plan_loop deps rem plan = Inr plan'
   \<Longrightarrow> distinct (concat plan') \<and> set (concat plan') = set rem \<union> set (concat plan)"
proof (induction "length rem" arbitrary: deps rem plan rule: less_induct)
  case less
  show ?case
  proof (cases "rem = []")
    case True
    with less.prems show ?thesis by (simp add: plan_loop_done)
  next
    case False
    define level where "level = filter (\<lambda>n. deps n = {}) rem"
    define rem' where "rem' = filter (\<lambda>n. deps n \<noteq> {}) rem"
    define deps' where "deps' = (\<lambda>n. if n \<in> set rem' then deps n - set level else deps n)"
    have lne: "level \<noteq> []"
    proof
      assume "level = []"
      then have "\<exists>m. plan_loop deps rem plan = Inl m"
        using plan_loop_stuck[OF False, of deps plan] by (simp add: level_def)
      with less.prems(4) show False by simp
    qed
    have step: "plan_loop deps rem plan = plan_loop deps' rem' (plan @ [level])"
      unfolding deps'_def rem'_def level_def
      using False lne[unfolded level_def] by (rule plan_loop_step)
    have shorter: "length rem' < length rem"
      unfolding rem'_def using lne[unfolded level_def] by (rule filter_shrinks)
    have part: "set level \<union> set rem' = set rem" "set level \<inter> set rem' = {}"
      by (auto simp: level_def rem'_def)
    have d1: "distinct rem'" using less.prems(1) by (simp add: rem'_def)
    have d2: "distinct (concat (plan @ [level]))"
      using less.prems(1,2,3) by (auto simp: level_def)
    have d3: "set rem' \<inter> set (concat (plan @ [level])) = {}"
      using less.prems(3) part by (auto simp: rem'_def)
    from less.hyps[OF shorter d1 d2 d3] less.prems(4) step
    have "distinct (concat plan') \<and> set (concat plan') = set rem' \<union> set (concat (plan @ [level]))"
      by simp
    with part show ?thesis by auto
  qed
qed

lemma build_execution_plan_nodes:
  assumes "build_execution_plan wd = Inr plan"
  shows "distinct (concat plan)" "set (concat plan) = node_id_set wd"
proof -
  from assms obtain deps where "plan_loop deps (remdups (map fst (nodes wd))) [] = Inr plan"
    by (auto simp: build_execution_plan_def Let_def split: sum.splits)
  from plan_loop_partition[OF _ _ _ this]
  show "distinct (concat plan)" "set (concat plan) = node_id_set wd"
    by (simp_all add: node_id_set_def)
qed

lemma internal_init_fail:
  assumes "initialize_workflow_nodes (node_registry eng) (nodes (workflow_def context))
             (context\<lparr>start_time := Some t_start, status := ''running''\<rparr>) = (c2, Some e)"
    and "execute_workflow_internal eng context t_start t_end = (eng', context', events, outcome)"
  shows "events = [Event ''workflow_start'' None None, Event ''workflow_error'' None (Some (exn_str e))]"
  using assms by (auto simp: execute_workflow_internal_def Let_def)

lemma internal_plan_fail:
  assumes "initialize_workflow_nodes (node_registry eng) (nodes (workflow_def context))
             (context\<lparr>start_time := Some t_start, status := ''running''\<rparr>) = (c2, None)"
    and "build_execution_plan (workflow_def c2) = Inl e"
    and "execute_workflow_internal eng context t_start t_end = (eng', context', events, outcome)"
  shows "events = [Event ''workflow_start'' None None, Event ''workflow_error'' None (Some (exn_str e))]"
  using assms by (auto simp: execute_workflow_internal_def execute_workflow_nodes_def Let_def)

lemma internal_run:
  assumes "initialize_workflow_nodes (node_registry eng) (nodes (workflow_def context))
             (context\<lparr>start_time := Some t_start, status := ''running''\<rparr>) = (c2, None)"
    and "build_execution_plan (workflow_def c2) = Inr plan"
    and "run_levels plan (c2\<lparr>node_results := Map.empty\<rparr>) = (c3, evs, raised)"
    and "execute_workflow_internal eng context t_start t_end = (eng', context', events, outcome)"
  shows "set events \<inter> {ev. event_node ev \<noteq> None} = set evs \<inter> {ev. event_node ev \<noteq> None}"
    and "node_results context' = node_results c3"
    and "raised = None \<Longrightarrow> \<exists>result. outcome = Inr result"
    and "\<And>m. raised = Some (WorkflowError m) \<Longrightarrow>
           outcome = Inl (WorkflowError m) \<and> status context' = ''failed''
           \<and> workflow_status eng' (workflow_id context) = Some FAILED"
  using assms
  by (auto simp: execute_workflow_internal_def execute_workflow_nodes_def Let_def
        handle_workflow_error_def isinstance_def WorkflowError_def split: option.splits)

text \<open>C2. The required-node policy of \<open>_execute_workflow_nodes\<close>, for a definition whose edges
  form no cycle. \<open>_validate_workflow_def\<close>, which \<open>execute_workflow\<close> runs before it
  schedules anything, accepts only such definitions (lemma \<open>validated_acyclic\<close> below);
  on a cycle of edges \<open>_is_node_required\<close> would not return.

  \<^item> \<open>_is_node_required\<close> returns, and it returns True exactly when the \<open>required\<close> flag
    of the node is true (the default when the flag or the node is absent), or a declared
    output references the node, or a path of edges leads from the node to a node for
    which \<open>_is_node_required\<close> returns True.
  \<^item> When the log of the run holds a \<open>node_error\<close> event for a required node, the run
    raises \<open>WorkflowError\<close>, the status of the context is \<open>failed\<close>, the status of the
    workflow is \<open>FAILED\<close>, and no node of a later level of the plan was started.
  \<^item> When nodes failed and every node that failed is not required, the run returns its
    result, \<open>node_results\<close> holds for each failed node the entry with status \<open>failed\<close>
    and the message of its exception, and every node of the definition was started.\<close>

theorem required_failure_policy:
  "acyclic (edge_rel (workflow_def context)) \<longrightarrow>
     (\<forall>n. is_node_required (workflow_def context) n
           = Some (flag_required (workflow_def context) n
                   \<or> output_references (workflow_def context) n
                   \<or> (\<exists>m. (n, m) \<in> (edge_rel (workflow_def context))\<^sup>+
                          \<and> is_node_required (workflow_def context) m = Some True)))
   \<and> (\<forall>eng' context' events outcome plan.
         execute_workflow_internal eng context t_start t_end = (eng', context', events, outcome)
         \<and> build_execution_plan (workflow_def context) = Inr plan \<longrightarrow>
           (\<forall>n msg. node_error_event n msg \<in> set events
                    \<and> is_node_required (workflow_def context) n = Some True \<longrightarrow>
                (\<exists>m. outcome = Inl (WorkflowError m)) \<and> status context' = ''failed''
              \<and> workflow_status eng' (workflow_id context) = Some FAILED
              \<and> (\<forall>m. ordered_in plan n m \<longrightarrow> node_start_event m \<notin> set events))
         \<and> ((\<exists>n msg. node_error_event n msg \<in> set events)
              \<and> (\<forall>n msg. node_error_event n msg \<in> set events
                    \<longrightarrow> is_node_required (workflow_def context) n = Some False) \<longrightarrow>
                (\<exists>result. outcome = Inr result)
              \<and> (\<forall>n msg. node_error_event n msg \<in> set events \<longrightarrow>
                    node_results context' n
                      = Some (PDict [(''error'', PStr msg), (''status'', PStr ''failed'')]))
              \<and> (\<forall>n \<in> node_id_set (workflow_def context). node_start_event n \<in> set events)))"
proof (rule impI)
  let ?wd = "workflow_def context"
  assume acy: "acyclic (edge_rel ?wd)"
  have req: "\<forall>n. is_node_required ?wd n = Some (reaches_marked ?wd n)"
    using acy by (simp add: is_node_required_correct)
  have partA: "is_node_required ?wd n
         = Some (flag_required ?wd n \<or> output_references ?wd n
                 \<or> (\<exists>m. (n, m) \<in> (edge_rel ?wd)\<^sup>+ \<and> is_node_required ?wd m = Some True))" for n
    using reaches_marked_literal[of ?wd n] by (simp add: req)
  have partB: "execute_workflow_internal eng context t_start t_end = (eng', context', events, outcome)
         \<and> build_execution_plan ?wd = Inr plan \<longrightarrow>
      ((\<forall>n msg. node_error_event n msg \<in> set events
                    \<and> is_node_required ?wd n = Some True \<longrightarrow>
                (\<exists>m. outcome = Inl (WorkflowError m)) \<and> status context' = ''failed''
              \<and> workflow_status eng' (workflow_id context) = Some FAILED
              \<and> (\<forall>m. ordered_in plan n m \<longrightarrow> node_start_event m \<notin> set events))
         \<and> ((\<exists>n msg. node_error_event n msg \<in> set events)
              \<and> (\<forall>n msg. node_error_event n msg \<in> set events
                    \<longrightarrow> is_node_required ?wd n = Some False) \<longrightarrow>
                (\<exists>result. outcome = Inr result)
              \<and> (\<forall>n msg. node_error_event n msg \<in> set events \<longrightarrow>
                    node_results context' n
                      = Some (PDict [(''error'', PStr msg), (''status'', PStr ''failed'')]))
              \<and> (\<forall>n \<in> node_id_set ?wd. node_start_event n \<in> set events)))"
    for eng' context' events outcome plan
  proof (rule impI)
  assume h: "execute_workflow_internal eng context t_start t_end = (eng', context', events, outcome)
         \<and> build_execution_plan ?wd = Inr plan"
  then have run: "execute_workflow_internal eng context t_start t_end = (eng', context', events, outcome)"
    and plan: "build_execution_plan ?wd = Inr plan" by simp_all
  let ?c1 = "context\<lparr>start_time := Some t_start, status := ''running''\<rparr>"
  obtain c2 ini where ini: "initialize_workflow_nodes (node_registry eng) (nodes ?wd) ?c1 = (c2, ini)"
    by (cases "initialize_workflow_nodes (node_registry eng) (nodes ?wd) ?c1") auto
  have node_node: "event_node (node_error_event n msg) \<noteq> None" "event_node (node_start_event n) \<noteq> None"
    for n msg by (simp_all add: node_error_event_def node_start_event_def)
  show "(\<forall>n msg. node_error_event n msg \<in> set events
                    \<and> is_node_required ?wd n = Some True \<longrightarrow>
                (\<exists>m. outcome = Inl (WorkflowError m)) \<and> status context' = ''failed''
              \<and> workflow_status eng' (workflow_id context) = Some FAILED
              \<and> (\<forall>m. ordered_in plan n m \<longrightarrow> node_start_event m \<notin> set events))
         \<and> ((\<exists>n msg. node_error_event n msg \<in> set events)
              \<and> (\<forall>n msg. node_error_event n msg \<in> set events
                    \<longrightarrow> is_node_required ?wd n = Some False) \<longrightarrow>
                (\<exists>result. outcome = Inr result)
              \<and> (\<forall>n msg. node_error_event n msg \<in> set events \<longrightarrow>
                    node_results context' n
                      = Some (PDict [(''error'', PStr msg), (''status'', PStr ''failed'')]))
              \<and> (\<forall>n \<in> node_id_set ?wd. node_start_event n \<in> set events))"
  proof (cases ini)
    case (Some e)
    from internal_init_fail[OF ini[unfolded Some] run]
    have "\<And>n msg. node_error_event n msg \<notin> set events"
      by (auto simp: node_error_event_def)
    then show ?thesis by blast
  next
    case None
    note ini' = ini[unfolded None]
    from initialize_workflow_nodes_ok[OF ini']
    have c2: "workflow_def c2 = ?wd"
      "\<forall>n. n \<in> fst ` set (nodes ?wd) \<longrightarrow> active_nodes c2 n \<noteq> None"
      by auto
    have plan2: "build_execution_plan (workflow_def c2) = Inr plan" using plan c2(1) by simp
    have pn: "distinct (concat plan)" "set (concat plan) = node_id_set ?wd"
      using build_execution_plan_nodes[OF plan] by simp_all
    let ?c0 = "c2\<lparr>node_results := Map.empty\<rparr>"
    obtain c3 evs raised where rl: "run_levels plan ?c0 = (c3, evs, raised)"
      by (cases "run_levels plan ?c0") auto
    have "run_spec (reaches_marked ?wd) plan ?c0 (run_levels plan ?c0)"
      using req c2 pn by (intro run_levels_spec) (auto simp: node_id_set_def)
    then have sp: "raised = None \<longleftrightarrow> (\<forall>n msg. node_error_event n msg \<in> set evs \<longrightarrow> \<not> reaches_marked ?wd n)"
      "\<And>x. raised = Some x \<Longrightarrow> \<exists>m. x = WorkflowError m"
      "raised = None \<Longrightarrow> \<forall>n \<in> set (concat plan). node_start_event n \<in> set evs"
      "\<And>n msg. raised = None \<Longrightarrow> node_error_event n msg \<in> set evs \<Longrightarrow>
          node_results c3 n = Some (PDict [(''error'', PStr msg), (''status'', PStr ''failed'')])"
      "\<And>n msg m. node_error_event n msg \<in> set evs \<Longrightarrow> reaches_marked ?wd n \<Longrightarrow> ordered_in plan n m
          \<Longrightarrow> node_start_event m \<notin> set evs"
      unfolding rl run_spec_def by auto
    note ir = internal_run[OF ini' plan2 rl run]
    have ev_err: "node_error_event n msg \<in> set events \<longleftrightarrow> node_error_event n msg \<in> set evs" for n msg
      using ir(1) node_node(1)[of n msg] by blast
    have ev_start: "node_start_event n \<in> set events \<longleftrightarrow> node_start_event n \<in> set evs" for n
      using ir(1) node_node(2)[of n] by blast
    have reqT: "is_node_required ?wd n = Some True \<longleftrightarrow> reaches_marked ?wd n" for n
      using req by simp
    have reqF: "is_node_required ?wd n = Some False \<longleftrightarrow> \<not> reaches_marked ?wd n" for n
      using req by simp
    have first: "\<forall>n msg. node_error_event n msg \<in> set events
                    \<and> is_node_required ?wd n = Some True \<longrightarrow>
                (\<exists>m. outcome = Inl (WorkflowError m)) \<and> status context' = ''failed''
              \<and> workflow_status eng' (workflow_id context) = Some FAILED
              \<and> (\<forall>m. ordered_in plan n m \<longrightarrow> node_start_event m \<notin> set events)"
    proof (intro allI impI)
      fix n msg
      assume a: "node_error_event n msg \<in> set events \<and> is_node_required ?wd n = Some True"
      then have e: "node_error_event n msg \<in> set evs" "reaches_marked ?wd n"
        using ev_err reqT by simp_all
      then have "raised \<noteq> None" using sp(1) by blast
      then obtain m where m: "raised = Some (WorkflowError m)" using sp(2) by fastforce
      have "\<forall>m. ordered_in plan n m \<longrightarrow> node_start_event m \<notin> set events"
        using sp(5)[OF e] ev_start by blast
      with ir(4)[OF m] show "(\<exists>m. outcome = Inl (WorkflowError m)) \<and> status context' = ''failed''
              \<and> workflow_status eng' (workflow_id context) = Some FAILED
              \<and> (\<forall>m. ordered_in plan n m \<longrightarrow> node_start_event m \<notin> set events)"
        by blast
    qed
    have second: "(\<exists>n msg. node_error_event n msg \<in> set events)
              \<and> (\<forall>n msg. node_error_event n msg \<in> set events
                    \<longrightarrow> is_node_required ?wd n = Some False) \<longrightarrow>
                (\<exists>result. outcome = Inr result)
              \<and> (\<forall>n msg. node_error_event n msg \<in> set events \<longrightarrow>
                    node_results context' n
                      = Some (PDict [(''error'', PStr msg), (''status'', PStr ''failed'')]))
              \<and> (\<forall>n \<in> node_id_set ?wd. node_start_event n \<in> set events)"
    proof (intro impI)
      assume a: "(\<exists>n msg. node_error_event n msg \<in> set events)
              \<and> (\<forall>n msg. node_error_event n msg \<in> set events
                    \<longrightarrow> is_node_required ?wd n = Some False)"
      then have "\<forall>n msg. node_error_event n msg \<in> set evs \<longrightarrow> \<not> reaches_marked ?wd n"
        using ev_err reqF by blast
      then have none: "raised = None" using sp(1) by blast
      have s1: "\<exists>result. outcome = Inr result" by (rule ir(3)[OF none])
      have s2: "\<forall>n msg. node_error_event n msg \<in> set events \<longrightarrow>
                    node_results context' n
                      = Some (PDict [(''error'', PStr msg), (''status'', PStr ''failed'')])"
        using sp(4)[OF none] ir(2) ev_err by simp
      have s3: "\<forall>n \<in> node_id_set ?wd. node_start_event n \<in> set events"
      proof
        fix n assume "n \<in> node_id_set ?wd"
        then have "n \<in> set (concat plan)" unfolding pn(2) .
        with sp(3)[OF none] have "node_start_event n \<in> set evs" by blast
        then show "node_start_event n \<in> set events" using ev_start by blast
      qed
      from s1 s2 s3
      show "(\<exists>result. outcome = Inr result)
              \<and> (\<forall>n msg. node_error_event n msg \<in> set events \<longrightarrow>
                    node_results context' n
                      = Some (PDict [(''error'', PStr msg), (''status'', PStr ''failed'')]))
              \<and> (\<forall>n \<in> node_id_set ?wd. node_start_event n \<in> set events)"
        by blast
    qed
    from first second show ?thesis by blast
  qed
  qed
  from partA partB show "(\<forall>n. is_node_required (workflow_def context) n
           = Some (flag_required (workflow_def context) n
                   \<or> output_references (workflow_def context) n
                   \<or> (\<exists>m. (n, m) \<in> (edge_rel (workflow_def context))\<^sup>+
                          \<and> is_node_required (workflow_def context) m = Some True)))
   \<and> (\<forall>eng' context' events outcome plan.
         execute_workflow_internal eng context t_start t_end = (eng', context', events, outcome)
         \<and> build_execution_plan (workflow_def context) = Inr plan \<longrightarrow>
           (\<forall>n msg. node_error_event n msg \<in> set events
                    \<and> is_node_required (workflow_def context) n = Some True \<longrightarrow>
                (\<exists>m. outcome = Inl (WorkflowError m)) \<and> status context' = ''failed''
              \<and> workflow_status eng' (workflow_id context) = Some FAILED
              \<and> (\<forall>m. ordered_in plan n m \<longrightarrow> node_start_event m \<notin> set events))
         \<and> ((\<exists>n msg. node_error_event n msg \<in> set events)
              \<and> (\<forall>n msg. node_error_event n msg \<in> set events
                    \<longrightarrow> is_node_required (workflow_def context) n = Some False) \<longrightarrow>
                (\<exists>result. outcome = Inr result)
              \<and> (\<forall>n msg. node_error_event n msg \<in> set events \<longrightarrow>
                    node_results context' n
                      = Some (PDict [(''error'', PStr msg), (''status'', PStr ''failed'')]))
              \<and> (\<forall>n \<in> node_id_set (workflow_def context). node_start_event n \<in> set events)))" by blast
qed

lemma validate_edges_ok:
  "validate_edges keys es = None
     \<Longrightarrow> \<forall>e \<in> set es. source e \<noteq> [] \<and> target e \<noteq> [] \<and> source e \<in> set keys \<and> target e \<in> set keys"
  by (induction es) (auto split: if_splits)

lemma validated_acyclic:
  assumes "validate_workflow_def reg wd = None"
  shows "acyclic (edge_rel wd)"
proof (rule ccontr)
  assume "\<not> acyclic (edge_rel wd)"
  then obtain n where n: "(n, n) \<in> (edge_rel wd)\<^sup>+" by (auto simp: acyclic_def)
  from assms have ve: "validate_edges (map fst (nodes wd)) (edges wd) = None"
    and pl: "\<exists>plan. build_execution_plan wd = Inr plan"
    by (auto simp: validate_workflow_def_def split: if_splits option.splits sum.splits)
  from validate_edges_ok[OF ve]
  have "\<forall>e \<in> set (edges wd). source e \<noteq> [] \<and> target e \<noteq> [] \<and> target e \<in> node_id_set wd"
    by (simp add: node_id_set_def)
  from planner_reports_cycle[OF this n] pl show False by auto
qed

lemma halting_valid: "validate_workflow_def policy_registry halting_workflow = None"
  by (simp add: validate_workflow_def_def halting_workflow_def policy_registry_def has_node_type_def
        nd_def ed_def falsy_def str_opt_def build_execution_plan_def plan_loop.simps Let_def)

lemma optional_valid: "validate_workflow_def policy_registry optional_workflow = None"
  by (simp add: validate_workflow_def_def optional_workflow_def policy_registry_def has_node_type_def
        nd_def ed_def falsy_def str_opt_def build_execution_plan_def plan_loop.simps Let_def)

lemma halting_plan: "build_execution_plan halting_workflow = Inr [[''x''], [''y'']]"
  by (simp add: build_execution_plan_def halting_workflow_def ed_def plan_loop.simps Let_def)

lemma optional_plan: "build_execution_plan optional_workflow = Inr [[''x''], [''y'']]"
  by (simp add: build_execution_plan_def optional_workflow_def ed_def plan_loop.simps Let_def)

lemma halting_required: "is_node_required halting_workflow ''x'' = Some True"
  by (simp add: is_node_required_def flag_required_def halting_workflow_def nd_def)

lemma optional_required:
  "is_node_required optional_workflow ''x'' = Some False"
  "is_node_required optional_workflow ''y'' = Some False"
  by (simp_all add: is_node_required_def flag_required_def output_references_def
        optional_workflow_def nd_def ed_def)

lemma halting_run:
  "fst (snd (snd (execute_workflow_internal policy_engine halting_context 0 1)))
     = [Event ''workflow_start'' None None, Event ''node_start'' (Some ''x'') None,
        Event ''node_error'' (Some ''x'') (Some ''boom''),
        Event ''workflow_error'' None (Some ''Required node x failed: boom'')]"
  using halting_plan halting_required
  by (simp add: execute_workflow_internal_def policy_engine_def halting_context_def
        ExecutionContext_def WorkflowEngine_def policy_registry_def
        create_node_def execute_workflow_nodes_def execute_node_def prepare_node_input_def
        failing_instance_def ok_instance_def handle_workflow_error_def isinstance_def WorkflowError_def
        falsy_def str_opt_def Let_def halting_workflow_def nd_def ed_def)

lemma optional_run:
  "fst (snd (snd (execute_workflow_internal policy_engine optional_context 0 1)))
     = [Event ''workflow_start'' None None, Event ''node_start'' (Some ''x'') None,
        Event ''node_error'' (Some ''x'') (Some ''boom''),
        Event ''node_start'' (Some ''y'') None, Event ''node_complete'' (Some ''y'') None,
        Event ''workflow_complete'' None None]"
  using optional_plan optional_required
  by (simp add: execute_workflow_internal_def policy_engine_def optional_context_def
        ExecutionContext_def WorkflowEngine_def policy_registry_def
        create_node_def execute_workflow_nodes_def execute_node_def prepare_node_input_def
        failing_instance_def ok_instance_def handle_workflow_error_def isinstance_def WorkflowError_def
        falsy_def str_opt_def Let_def optional_workflow_def nd_def ed_def)

lemma ordered_x_y: "ordered_in [[''x''], [''y'']] ''x'' ''y''"
proof -
  have "(1::nat) < length [[''x''], [''y'']] \<and> (0::nat) < 1
        \<and> ''x'' \<in> set ([[''x''], [''y'']] ! 0) \<and> ''y'' \<in> set ([[''x''], [''y'']] ! 1)"
    by simp
  then show ?thesis unfolding ordered_in_def by blast
qed

theorem required_failure_policy_witness:
  "is_node_required halting_workflow ''x'' = Some True
   \<and> node_error_event ''x'' ''boom''
        \<in> set (fst (snd (snd (execute_workflow_internal policy_engine halting_context 0 1))))
   \<and> (\<exists>m. snd (snd (snd (execute_workflow_internal policy_engine halting_context 0 1)))
            = Inl (WorkflowError m))
   \<and> status (fst (snd (execute_workflow_internal policy_engine halting_context 0 1))) = ''failed''
   \<and> workflow_status (fst (execute_workflow_internal policy_engine halting_context 0 1)) ''wf-3''
        = Some FAILED
   \<and> node_start_event ''y''
        \<notin> set (fst (snd (snd (execute_workflow_internal policy_engine halting_context 0 1))))
   \<and> is_node_required optional_workflow ''x'' = Some False
   \<and> node_error_event ''x'' ''boom''
        \<in> set (fst (snd (snd (execute_workflow_internal policy_engine optional_context 0 1))))
   \<and> (\<exists>result. snd (snd (snd (execute_workflow_internal policy_engine optional_context 0 1)))
            = Inr result)
   \<and> node_results (fst (snd (execute_workflow_internal policy_engine optional_context 0 1))) ''x''
        = Some (PDict [(''error'', PStr ''boom''), (''status'', PStr ''failed'')])
   \<and> node_start_event ''y''
        \<in> set (fst (snd (snd (execute_workflow_internal policy_engine optional_context 0 1))))"
proof -
  let ?H = "execute_workflow_internal policy_engine halting_context 0 1"
  let ?O = "execute_workflow_internal policy_engine optional_context 0 1"
  have wdh: "workflow_def halting_context = halting_workflow" "workflow_id halting_context = ''wf-3''"
    by (simp_all add: halting_context_def ExecutionContext_def)
  have wdo: "workflow_def optional_context = optional_workflow"
    by (simp add: optional_context_def ExecutionContext_def)
  have acyh: "acyclic (edge_rel (workflow_def halting_context))"
    unfolding wdh using halting_valid by (rule validated_acyclic)
  have acyo: "acyclic (edge_rel (workflow_def optional_context))"
    unfolding wdo using optional_valid by (rule validated_acyclic)
  have errh: "node_error_event ''x'' ''boom'' \<in> set (fst (snd (snd ?H)))"
    unfolding halting_run by (simp add: node_error_event_def)
  have erro: "node_error_event ''x'' ''boom'' \<in> set (fst (snd (snd ?O)))"
    unfolding optional_run by (simp add: node_error_event_def)
  have only: "\<forall>n msg. node_error_event n msg \<in> set (fst (snd (snd ?O)))
                \<longrightarrow> is_node_required (workflow_def optional_context) n = Some False"
    unfolding optional_run wdo using optional_required(1) by (auto simp: node_error_event_def)
  have yo: "''y'' \<in> node_id_set (workflow_def optional_context)"
    unfolding wdo by (simp add: node_id_set_def optional_workflow_def)
  have runh: "?H = (fst ?H, fst (snd ?H), fst (snd (snd ?H)), snd (snd (snd ?H)))" by simp
  have runo: "?O = (fst ?O, fst (snd ?O), fst (snd (snd ?O)), snd (snd (snd ?O)))" by simp
  from required_failure_policy [of halting_context policy_engine 0 1] acyh
  have "execute_workflow_internal policy_engine halting_context 0 1
          = (fst ?H, fst (snd ?H), fst (snd (snd ?H)), snd (snd (snd ?H)))
        \<and> build_execution_plan (workflow_def halting_context) = Inr [[''x''], [''y'']] \<longrightarrow>
        (\<forall>n msg. node_error_event n msg \<in> set (fst (snd (snd ?H)))
                    \<and> is_node_required (workflow_def halting_context) n = Some True \<longrightarrow>
                (\<exists>m. snd (snd (snd ?H)) = Inl (WorkflowError m)) \<and> status (fst (snd ?H)) = ''failed''
              \<and> workflow_status (fst ?H) (workflow_id halting_context) = Some FAILED
              \<and> (\<forall>m. ordered_in [[''x''], [''y'']] n m \<longrightarrow> node_start_event m \<notin> set (fst (snd (snd ?H)))))"
    by blast
  with runh halting_plan halting_required errh ordered_x_y
  have H: "(\<exists>m. snd (snd (snd ?H)) = Inl (WorkflowError m)) \<and> status (fst (snd ?H)) = ''failed''
              \<and> workflow_status (fst ?H) ''wf-3'' = Some FAILED
              \<and> node_start_event ''y'' \<notin> set (fst (snd (snd ?H)))"
    unfolding wdh by blast
  from required_failure_policy [of optional_context policy_engine 0 1] acyo
  have "execute_workflow_internal policy_engine optional_context 0 1
          = (fst ?O, fst (snd ?O), fst (snd (snd ?O)), snd (snd (snd ?O)))
        \<and> build_execution_plan (workflow_def optional_context) = Inr [[''x''], [''y'']] \<longrightarrow>
        ((\<exists>n msg. node_error_event n msg \<in> set (fst (snd (snd ?O))))
              \<and> (\<forall>n msg. node_error_event n msg \<in> set (fst (snd (snd ?O)))
                    \<longrightarrow> is_node_required (workflow_def optional_context) n = Some False) \<longrightarrow>
                (\<exists>result. snd (snd (snd ?O)) = Inr result)
              \<and> (\<forall>n msg. node_error_event n msg \<in> set (fst (snd (snd ?O))) \<longrightarrow>
                    node_results (fst (snd ?O)) n
                      = Some (PDict [(''error'', PStr msg), (''status'', PStr ''failed'')]))
              \<and> (\<forall>n \<in> node_id_set (workflow_def optional_context).
                    node_start_event n \<in> set (fst (snd (snd ?O)))))"
    by blast
  with runo optional_plan[folded wdo] erro only yo
  have O: "(\<exists>result. snd (snd (snd ?O)) = Inr result)
           \<and> node_results (fst (snd ?O)) ''x''
               = Some (PDict [(''error'', PStr ''boom''), (''status'', PStr ''failed'')])
           \<and> node_start_event ''y'' \<in> set (fst (snd (snd ?O)))"
    by blast
  from H O halting_required optional_required(1) errh erro show ?thesis by blast
qed

end
